theory Spec2Isabelle
  imports Complex_Main
begin

section \<open>The graph store\<close>

text \<open>
  The program keeps all its state in a labelled property graph and talks to it through
  query statements.  A \<open>Card\<close> and a \<open>Pos\<close> node carry \<open>{id, compromised}\<close>, a
  \<open>Transaction\<close> node carries \<open>{id, fraudReported}\<close> and has one \<open>Using\<close> edge to a
  card and one \<open>At\<close> edge to a POS device.  Nodes are never deleted one by one, so a node
  is identified by its position in the list of the nodes of its label; an edge stores the
  position of its target.  Ids are properties, not identities: nothing in the store keeps
  two nodes from having the same id.
\<close>

record node =
  nid :: int
  compromised :: bool

record trans =
  tid :: int
  fraudReported :: bool
  using_card :: nat
  at_pos :: nat

record graph =
  cards :: "node list"
  poss :: "node list"
  txs :: "trans list"

datatype py_error = ValueError string

datatype http = Response nat | Uncaught py_error

record request =
  req_cards :: int
  req_pos :: int
  req_transactions :: int
  req_frauds :: int
  req_reports :: rat

text \<open>
  The outcomes of the random number generators are inputs of the model: \<open>sample_e\<close>
  feeds \<open>random.sample\<close>, \<open>card_e\<close> and \<open>pos_e\<close> feed the two \<open>randint\<close> calls of
  transaction \<open>i\<close>, and \<open>rand_e i k\<close> is the value of the store's \<open>rand()\<close> for the
  \<open>k\<close>-th row of the statement of transaction \<open>i\<close>.
\<close>

record rng =
  sample_e :: "nat \<Rightarrow> nat"
  card_e :: "int \<Rightarrow> nat"
  pos_e :: "int \<Rightarrow> nat"
  rand_e :: "int \<Rightarrow> nat \<Rightarrow> rat"

subsection \<open>Store primitives\<close>

definition drop_database :: "graph \<Rightarrow> graph" where
  "drop_database g = \<lparr>cards = [], poss = [], txs = []\<rparr>"

text \<open>\<open>MATCH (n:Label {id: k})\<close>: the positions of the nodes whose id is \<open>k\<close>.\<close>

definition match_ids :: "node list \<Rightarrow> int \<Rightarrow> nat list" where
  "match_ids ns k = filter (\<lambda>j. nid (ns ! j) = k) [0..<length ns]"

text \<open>\<open>UNWIND range(0, n - 1) AS id CREATE (:Label {id: id, compromised: false})\<close>;
  the range of the query language includes both ends and is empty when \<open>n - 1 < 0\<close>.\<close>

definition fresh_nodes :: "int \<Rightarrow> node list" where
  "fresh_nodes n = map (\<lambda>i. \<lparr>nid = i, compromised = False\<rparr>) [0..n - 1]"

subsection \<open>Population Initializer\<close>

definition init_data :: "graph \<Rightarrow> int \<Rightarrow> int \<Rightarrow> graph" where
  "init_data g card_count pos_count =
     (let g1 = g\<lparr>cards := cards g @ fresh_nodes card_count\<rparr>
      in g1\<lparr>poss := poss g1 @ fresh_nodes pos_count\<rparr>)"

subsection \<open>Compromise Selector\<close>

text \<open>\<open>MATCH (p:Pos {id: pos_id}) SET p.compromised = true\<close>\<close>

definition compromise_pos :: "graph \<Rightarrow> int \<Rightarrow> graph" where
  "compromise_pos g pos_id =
     g\<lparr>poss := map (\<lambda>p. if nid p = pos_id then p\<lparr>compromised := True\<rparr> else p) (poss g)\<rparr>"

text \<open>\<open>random.sample(population, k)\<close>: \<open>k\<close> picks without replacement, or
  \<open>ValueError\<close> when \<open>k\<close> is negative or larger than the population.\<close>

fun draw_sample :: "int list \<Rightarrow> nat \<Rightarrow> (nat \<Rightarrow> nat) \<Rightarrow> int list" where
  "draw_sample xs 0 e = []"
| "draw_sample xs (Suc k) e =
     (if xs = [] then []
      else (let j = e k mod length xs
            in xs ! j # draw_sample (take j xs @ drop (Suc j) xs) k e))"

definition sample :: "int list \<Rightarrow> int \<Rightarrow> (nat \<Rightarrow> nat) \<Rightarrow> py_error + int list" where
  "sample population k e =
     (if k < 0 \<or> int (length population) < k
      then Inl (ValueError ''Sample larger than population or is negative'')
      else Inr (draw_sample population (nat k) e))"

definition compromise_pos_devices ::
  "graph \<Rightarrow> int \<Rightarrow> int \<Rightarrow> (nat \<Rightarrow> nat) \<Rightarrow> py_error option \<times> graph" where
  "compromise_pos_devices g pos_count fraud_count e =
     (case sample [0..pos_count - 1] fraud_count e of
        Inl err \<Rightarrow> (Some err, g)
      | Inr compromised_devices \<Rightarrow> (None, foldl compromise_pos g compromised_devices))"

subsection \<open>Transaction Generator\<close>

text \<open>\<open>random.randint(a, b)\<close>: an integer of \<open>[a, b]\<close>, or \<open>ValueError\<close> when the
  range is empty.\<close>

definition randint :: "int \<Rightarrow> int \<Rightarrow> nat \<Rightarrow> py_error + int" where
  "randint a b e =
     (if b < a then Inl (ValueError ''empty range for randrange()'')
      else Inr (a + int (e mod nat (b - a + 1))))"

definition rint :: "int \<Rightarrow> nat \<Rightarrow> py_error + int" where
  "rint mx e = randint 0 (mx - 1) e"

text \<open>The threshold is written into the statement with \<open>%f\<close>: six decimals, rounded
  to nearest, ties to even.\<close>

definition fmt_f :: "rat \<Rightarrow> rat" where
  "fmt_f x =
     (let s = x * 1000000; f = \<lfloor>s\<rfloor>; d = s - of_int f
      in of_int (if d < 1 / 2 then f else if 1 / 2 < d then f + 1
                 else if even f then f else f + 1) / 1000000)"

text \<open>
  One row \<open>(c, p)\<close> of
  \<open>MATCH (c:Card {id: ..}), (p:Pos {id: ..})
    CREATE (t:Transaction {id: i, fraudReported: c.compromised AND (rand() < thr)})
    CREATE (c)<-[:Using]-(t)-[:At]->(p)
    SET c.compromised = p.compromised\<close>:
  the new node reads the card's flag, then the card's flag is overwritten with the
  device's.
\<close>

definition tx_row :: "int \<Rightarrow> rat \<Rightarrow> graph \<Rightarrow> (nat \<times> nat) \<times> rat \<Rightarrow> graph" where
  "tx_row i thr g row =
     (case row of ((c, p), r) \<Rightarrow>
        (let t = \<lparr>tid = i, fraudReported = (compromised (cards g ! c) \<and> r < thr),
                  using_card = c, at_pos = p\<rparr>;
             g1 = g\<lparr>txs := txs g @ [t]\<rparr>
         in g1\<lparr>cards := (cards g1)[c := (cards g1 ! c)\<lparr>compromised := compromised (poss g1 ! p)\<rparr>]\<rparr>))"

text \<open>The statement runs its rows one after the other; the rows are the pairs of a
  matching card and a matching device.\<close>

definition create_tx :: "graph \<Rightarrow> int \<Rightarrow> int \<Rightarrow> int \<Rightarrow> rat \<Rightarrow> (nat \<Rightarrow> rat) \<Rightarrow> graph" where
  "create_tx g card_id pos_id i thr rnd =
     (let rows = List.product (match_ids (cards g) card_id) (match_ids (poss g) pos_id)
      in foldl (tx_row i thr) g (zip rows (map rnd [0..<length rows])))"

fun pump_loop ::
  "int \<Rightarrow> int \<Rightarrow> rat \<Rightarrow> rng \<Rightarrow> int list \<Rightarrow> graph \<Rightarrow> py_error option \<times> graph" where
  "pump_loop card_count pos_count thr rg [] g = (None, g)"
| "pump_loop card_count pos_count thr rg (i # is) g =
     (case rint card_count (card_e rg i) of
        Inl err \<Rightarrow> (Some err, g)
      | Inr c \<Rightarrow>
          (case rint pos_count (pos_e rg i) of
             Inl err \<Rightarrow> (Some err, g)
           | Inr p \<Rightarrow>
               pump_loop card_count pos_count thr rg is
                 (create_tx g c p i thr (rand_e rg i))))"

definition pump_transactions ::
  "graph \<Rightarrow> int \<Rightarrow> int \<Rightarrow> int \<Rightarrow> rat \<Rightarrow> rng \<Rightarrow> py_error option \<times> graph" where
  "pump_transactions g card_count pos_count tx_count report_pct rg =
     pump_loop card_count pos_count (fmt_f report_pct) rg [0..tx_count - 1] g"

subsection \<open>Remediation Engine\<close>

text \<open>
  \<open>MATCH (p:Pos {id: ..}) SET p.compromised = false
    WITH p MATCH (p)--(t:Transaction)--(c:Card)
    SET t.fraudReported = false, c.compromised = false\<close>:
  the only edges of a device are the \<open>At\<close> edges of its transactions, and the only edge
  from a transaction to a card is its \<open>Using\<close> edge.
\<close>

definition clear_row :: "graph \<Rightarrow> nat \<Rightarrow> graph" where
  "clear_row g k =
     (let c = using_card (txs g ! k)
      in g\<lparr>txs := (txs g)[k := (txs g ! k)\<lparr>fraudReported := False\<rparr>],
           cards := (cards g)[c := (cards g ! c)\<lparr>compromised := False\<rparr>]\<rparr>)"

definition resolve_row :: "graph \<Rightarrow> nat \<Rightarrow> graph" where
  "resolve_row g p =
     (let g1 = g\<lparr>poss := (poss g)[p := (poss g ! p)\<lparr>compromised := False\<rparr>]\<rparr>
      in foldl clear_row g1 (filter (\<lambda>k. at_pos (txs g1 ! k) = p) [0..<length (txs g1)]))"

definition resolve_pos :: "graph \<Rightarrow> int \<Rightarrow> graph" where
  "resolve_pos g pos_id = foldl resolve_row g (match_ids (poss g) pos_id)"

subsection \<open>Fraud Query Engine\<close>

text \<open>
  \<open>MATCH (t:Transaction {fraudReported: true})-[:Using]->(:Card)<-[:Using]-(:Transaction)-[:At]->(p:Pos)\<close>:
  a match may not use one edge twice, and a transaction has one \<open>Using\<close> edge, so the two
  transactions of a row are different nodes.
\<close>

definition fraud_rows :: "graph \<Rightarrow> (nat \<times> nat) list" where
  "fraud_rows g =
     filter (\<lambda>(i, j). fraudReported (txs g ! i) \<and> i \<noteq> j \<and>
                       using_card (txs g ! j) = using_card (txs g ! i))
       (List.product [0..<length (txs g)] [0..<length (txs g)])"

definition row_pos :: "graph \<Rightarrow> nat \<times> nat \<Rightarrow> int" where
  "row_pos g row = nid (poss g ! at_pos (txs g ! snd row))"

text \<open>\<open>WITH p.id as pos, count(t) as connected_frauds WHERE connected_frauds > 1
  RETURN pos, connected_frauds ORDER BY connected_frauds DESC\<close>\<close>

definition get_compromised_pos :: "graph \<Rightarrow> (int \<times> int) list" where
  "get_compromised_pos g =
     (let rows = fraud_rows g;
          groups = map (\<lambda>p. (p, int (length (filter (\<lambda>r. row_pos g r = p) rows))))
                       (remdups (map (row_pos g) rows))
      in sort_key (\<lambda>r. - snd r) (filter (\<lambda>r. 1 < snd r) groups))"

text \<open>\<open>MATCH (t:Transaction {fraudReported: true}) RETURN t.id as id\<close>, answered with
  status 200.\<close>

definition get_fraudulent_transactions :: "graph \<Rightarrow> http \<times> int list" where
  "get_fraudulent_transactions g = (Response 200, map tid (filter fraudReported (txs g)))"

subsection \<open>Generating a run\<close>

definition generate_data :: "graph \<Rightarrow> request \<Rightarrow> rng \<Rightarrow> http \<times> graph" where
  "generate_data g data rg =
     (if req_pos data < req_frauds data then (Response 418, g)
      else
        (let g0 = drop_database g;
             g1 = init_data g0 (req_cards data) (req_pos data)
         in case compromise_pos_devices g1 (req_pos data) (req_frauds data) (sample_e rg) of
              (Some err, g2) \<Rightarrow> (Uncaught err, g2)
            | (None, g2) \<Rightarrow>
                (case pump_transactions g2 (req_cards data) (req_pos data)
                        (req_transactions data) (req_reports data) rg of
                   (Some err, g3) \<Rightarrow> (Uncaught err, g3)
                 | (None, g3) \<Rightarrow> (Response 201, g3))))"

subsection \<open>The effect of a remediation, in closed form\<close>

text \<open>The graph in which the devices at the positions \<open>P\<close>, the transactions at these
  devices and the cards of these transactions have their flags cleared, and nothing else
  differs from \<open>g\<close>.  The remediation statement is shown to compute it.\<close>

definition resolved :: "graph \<Rightarrow> (nat \<Rightarrow> bool) \<Rightarrow> graph" where
  "resolved g P =
     \<lparr>cards = map (\<lambda>c. if \<exists>k<length (txs g). P (at_pos (txs g ! k)) \<and> using_card (txs g ! k) = c
                        then (cards g ! c)\<lparr>compromised := False\<rparr> else cards g ! c)
                   [0..<length (cards g)],
      poss = map (\<lambda>j. if P j then (poss g ! j)\<lparr>compromised := False\<rparr> else poss g ! j)
                  [0..<length (poss g)],
      txs = map (\<lambda>k. if P (at_pos (txs g ! k)) then (txs g ! k)\<lparr>fraudReported := False\<rparr>
                        else txs g ! k)
                 [0..<length (txs g)]\<rparr>"

text \<open>A transaction is linked to the card and the device whose ids were drawn for it.\<close>

definition linked :: "int \<Rightarrow> int \<Rightarrow> rng \<Rightarrow> trans \<Rightarrow> bool" where
  "linked n m rg t \<longleftrightarrow>
     rint n (card_e rg (tid t)) = Inr (int (using_card t)) \<and>
     rint m (pos_e rg (tid t)) = Inr (int (at_pos t)) \<and>
     int (using_card t) < n \<and> int (at_pos t) < m"

subsection \<open>Example runs\<close>

text \<open>One card and two devices; device 0 is the compromised one, every transaction uses
  card 0, transaction \<open>i\<close> is at device \<open>i mod 2\<close>, and every trial succeeds.\<close>

definition ex_rng :: rng where
  "ex_rng = \<lparr>sample_e = (\<lambda>k. 0), card_e = (\<lambda>i. 0), pos_e = (\<lambda>i. nat i), rand_e = (\<lambda>i k. 0)\<rparr>"

definition ex_request :: "int \<Rightarrow> request" where
  "ex_request n = \<lparr>req_cards = 1, req_pos = 2, req_transactions = n, req_frauds = 1,
                    req_reports = 1 / 2\<rparr>"

definition empty_graph :: graph where
  "empty_graph = \<lparr>cards = [], poss = [], txs = []\<rparr>"

definition after_first :: graph where
  "after_first = \<lparr>cards = [\<lparr>nid = 0, compromised = True\<rparr>],
     poss = [\<lparr>nid = 0, compromised = True\<rparr>, \<lparr>nid = 1, compromised = False\<rparr>],
     txs = [\<lparr>tid = 0, fraudReported = False, using_card = 0, at_pos = 0\<rparr>]\<rparr>"

definition bad_request :: request where
  "bad_request = \<lparr>req_cards = 0, req_pos = 2, req_transactions = 1, req_frauds = 1,
                   req_reports = 1 / 2\<rparr>"

text \<open>The store after the second transaction of the example run.\<close>

definition after_second :: graph where
  "after_second = \<lparr>cards = [\<lparr>nid = 0, compromised = False\<rparr>],
     poss = [\<lparr>nid = 0, compromised = True\<rparr>, \<lparr>nid = 1, compromised = False\<rparr>],
     txs = [\<lparr>tid = 0, fraudReported = False, using_card = 0, at_pos = 0\<rparr>,
            \<lparr>tid = 1, fraudReported = True, using_card = 0, at_pos = 1\<rparr>]\<rparr>"

text \<open>Two cards, three devices, six transactions: card 0 has two reported transactions
  at device 0 and two unreported ones at device 1, card 1 has a reported and an
  unreported transaction at device 2.\<close>

definition ring_graph :: graph where
  "ring_graph = \<lparr>cards = [\<lparr>nid = 0, compromised = True\<rparr>, \<lparr>nid = 1, compromised = True\<rparr>],
     poss = [\<lparr>nid = 0, compromised = True\<rparr>, \<lparr>nid = 1, compromised = False\<rparr>,
             \<lparr>nid = 2, compromised = True\<rparr>],
     txs = [\<lparr>tid = 0, fraudReported = True, using_card = 0, at_pos = 0\<rparr>,
            \<lparr>tid = 1, fraudReported = True, using_card = 0, at_pos = 0\<rparr>,
            \<lparr>tid = 2, fraudReported = False, using_card = 0, at_pos = 1\<rparr>,
            \<lparr>tid = 3, fraudReported = False, using_card = 0, at_pos = 1\<rparr>,
            \<lparr>tid = 4, fraudReported = True, using_card = 1, at_pos = 2\<rparr>,
            \<lparr>tid = 5, fraudReported = False, using_card = 1, at_pos = 2\<rparr>]\<rparr>"

text \<open>A request with a negative number of compromised devices, and one whose report
  probability is below the sixth decimal.\<close>

definition neg_request :: request where
  "neg_request = \<lparr>req_cards = 1, req_pos = 2, req_transactions = 1, req_frauds = - 1,
                   req_reports = 1 / 2\<rparr>"

definition small_request :: "int \<Rightarrow> request" where
  "small_request n = \<lparr>req_cards = 1, req_pos = 2, req_transactions = n, req_frauds = 1,
                       req_reports = 1 / 10000000\<rparr>"

text \<open>The pairs of card id and device id that the transactions of a store link, in the
  order of the transactions.\<close>

definition links :: "graph \<Rightarrow> (int \<times> int) list" where
  "links g = map (\<lambda>t. (nid (cards g ! using_card t), nid (poss g ! at_pos t))) (txs g)"

section \<open>Basic facts about the store\<close>

lemma filter_eq_upt: "filter (\<lambda>j. j = a) [0..<n] = (if a < n then [a] else [])"
  by (induction n) auto

text \<open>In a population with the ids \<open>0, \<dots>, n - 1\<close> in order, an id of the range
  matches one node, the one at that position.\<close>

lemma match_ids_range:
  assumes ids: "map nid ns = [0..n - 1]" and k: "0 \<le> k" "k < n"
  shows "match_ids ns k = [nat k]"
proof -
  have len: "length ns = nat n"
    using arg_cong [OF ids, of length] by simp
  have nth: "nid (ns ! j) = int j" if "j < length ns" for j
  proof -
    have "nid (ns ! j) = map nid ns ! j" using that by simp
    also have "\<dots> = [0..n - 1] ! j" by (simp only: ids)
    also have "\<dots> = 0 + int j" using that len by (intro nth_upto) simp
    finally show ?thesis by simp
  qed
  have "match_ids ns k = filter (\<lambda>j. j = nat k) [0..<length ns]"
    unfolding match_ids_def using nth k by (intro filter_cong) auto
  then show ?thesis using k len by (simp add: filter_eq_upt)
qed

lemma create_tx_single:
  "match_ids (cards g) card_id = [c] \<Longrightarrow> match_ids (poss g) pos_id = [p] \<Longrightarrow>
   create_tx g card_id pos_id i thr rnd = tx_row i thr g ((c, p), rnd 0)"
  by (simp add: create_tx_def)

lemma compromise_pos_fields:
  "cards (compromise_pos g k) = cards g" "txs (compromise_pos g k) = txs g"
  "map nid (poss (compromise_pos g k)) = map nid (poss g)"
  by (simp_all add: compromise_pos_def)

lemma foldl_compromise_pos_fields:
  "cards (foldl compromise_pos g ks) = cards g \<and> txs (foldl compromise_pos g ks) = txs g \<and>
   map nid (poss (foldl compromise_pos g ks)) = map nid (poss g)"
  by (induction ks arbitrary: g) (simp_all add: compromise_pos_fields)

lemma compromise_pos_devices_fields:
  "cards (snd (compromise_pos_devices g m f e)) = cards g"
  "txs (snd (compromise_pos_devices g m f e)) = txs g"
  "map nid (poss (snd (compromise_pos_devices g m f e))) = map nid (poss g)"
  by (simp_all add: compromise_pos_devices_def foldl_compromise_pos_fields split: sum.splits)

lemma compromise_pos_devices_ok:
  "0 \<le> f \<Longrightarrow> f \<le> m \<Longrightarrow> fst (compromise_pos_devices g m f e) = None"
  by (simp add: compromise_pos_devices_def sample_def)

lemma init_data_fields:
  "cards (init_data g n m) = cards g @ fresh_nodes n"
  "poss (init_data g n m) = poss g @ fresh_nodes m"
  "txs (init_data g n m) = txs g"
  by (simp_all add: init_data_def Let_def)

lemma map_nid_fresh_nodes: "map nid (fresh_nodes n) = [0..n - 1]"
  by (simp add: fresh_nodes_def comp_def)

lemma length_fresh_nodes: "length (fresh_nodes n) = nat n"
  by (simp add: fresh_nodes_def)

lemma fresh_nodes_clean: "x \<in> set (fresh_nodes n) \<Longrightarrow> compromised x = False"
  by (auto simp: fresh_nodes_def)

lemma match_ids_bound: "match_ids ns k = [c] \<Longrightarrow> c < length ns"
proof -
  assume "match_ids ns k = [c]"
  then have "c \<in> set (filter (\<lambda>j. nid (ns ! j) = k) [0..<length ns])"
    by (simp add: match_ids_def)
  then show ?thesis by simp
qed

lemma tx_row_fields:
  "poss (tx_row i thr g ((c, p), r)) = poss g"
  "txs (tx_row i thr g ((c, p), r)) =
     txs g @ [\<lparr>tid = i, fraudReported = (compromised (cards g ! c) \<and> r < thr),
               using_card = c, at_pos = p\<rparr>]"
  "cards (tx_row i thr g ((c, p), r)) =
     (cards g)[c := (cards g ! c)\<lparr>compromised := compromised (poss g ! p)\<rparr>]"
  by (simp_all add: tx_row_def Let_def)

lemma map_nid_update:
  "map nid (xs[c := (xs ! c)\<lparr>compromised := b\<rparr>]) = map nid xs"
proof (cases "c < length xs")
  case True
  then show ?thesis by (simp add: map_update list_update_same_conv)
next
  case False
  then have "xs[c := (xs ! c)\<lparr>compromised := b\<rparr>] = xs"
    by (intro list_update_beyond) simp
  then show ?thesis by (simp only:)
qed

lemma rint_in_range: "1 \<le> n \<Longrightarrow> rint n e = Inr (int (e mod nat n))"
  by (simp add: rint_def randint_def)

lemma rint_empty: "n \<le> 0 \<Longrightarrow> rint n e = Inl (ValueError ''empty range for randrange()'')"
  by (simp add: rint_def randint_def)

lemma rint_onto: "0 \<le> c \<Longrightarrow> c < n \<Longrightarrow> rint n (nat c) = Inr c"
  by (simp add: rint_def randint_def)

lemma nid_nth_range:
  assumes "map nid ns = [0..n - 1]" and "k < length ns"
  shows "nid (ns ! k) = int k"
proof -
  have len: "length ns = nat n"
    using arg_cong [OF assms(1), of length] by simp
  have "nid (ns ! k) = map nid ns ! k" using assms(2) by simp
  also have "\<dots> = [0..n - 1] ! k" by (simp only: assms(1))
  also have "\<dots> = 0 + int k" using assms(2) len by (intro nth_upto) simp
  finally show ?thesis by simp
qed

lemma length_range:
  assumes "map nid ns = [0..n - 1]"
  shows "length ns = nat n"
  using arg_cong [OF assms, of length] by simp

lemma mod_nat_bound: "1 \<le> n \<Longrightarrow> int (e mod nat n) < n"
proof -
  assume "1 \<le> n"
  then have "e mod nat n < nat n" by simp
  then show ?thesis by linarith
qed

lemma rint_cases:
  "rint n e = Inl (ValueError ''empty range for randrange()'') \<or> (\<exists>c. rint n e = Inr c)"
  by (simp add: rint_def randint_def)

lemma pump_loop_populated:
  assumes "map nid (cards g) = [0..n - 1]" and "map nid (poss g) = [0..m - 1]"
    and "1 \<le> n" and "1 \<le> m"
  shows "\<exists>new. pump_loop n m thr rg js g =
           (None, \<lparr>cards = cards (snd (pump_loop n m thr rg js g)), poss = poss g,
                   txs = txs g @ new\<rparr>) \<and>
         map nid (cards (snd (pump_loop n m thr rg js g))) = [0..n - 1] \<and>
         map tid new = js \<and> (\<forall>t \<in> set new. linked n m rg t)"
  using assms(1,2)
proof (induction js arbitrary: g)
  case Nil
  then show ?case by simp
next
  case (Cons i js)
  define c where "c = card_e rg i mod nat n"
  define p where "p = pos_e rg i mod nat m"
  have c: "rint n (card_e rg i) = Inr (int c)" "int c < n"
    using assms(3) by (simp_all add: rint_in_range c_def mod_nat_bound)
  have p: "rint m (pos_e rg i) = Inr (int p)" "int p < m"
    using assms(4) by (simp_all add: rint_in_range p_def mod_nat_bound)
  have mc: "match_ids (cards g) (int c) = [c]"
    using match_ids_range [OF Cons.prems(1), of "int c"] c by simp
  have mp: "match_ids (poss g) (int p) = [p]"
    using match_ids_range [OF Cons.prems(2), of "int p"] p by simp
  define g1 where "g1 = create_tx g (int c) (int p) i thr (rand_e rg i)"
  have g1: "g1 = tx_row i thr g ((c, p), rand_e rg i 0)"
    unfolding g1_def by (rule create_tx_single [OF mc mp])
  have step: "pump_loop n m thr rg (i # js) g = pump_loop n m thr rg js g1"
    by (simp add: c p g1_def)
  have ids1: "map nid (cards g1) = [0..n - 1]" "map nid (poss g1) = [0..m - 1]"
    using Cons.prems by (simp_all add: g1 tx_row_fields map_nid_update)
  from Cons.IH [OF ids1] obtain new where new:
    "pump_loop n m thr rg js g1 =
       (None, \<lparr>cards = cards (snd (pump_loop n m thr rg js g1)), poss = poss g1,
               txs = txs g1 @ new\<rparr>)"
    "map nid (cards (snd (pump_loop n m thr rg js g1))) = [0..n - 1]"
    "map tid new = js" "\<forall>t \<in> set new. linked n m rg t"
    by blast
  define t where "t = \<lparr>tid = i, fraudReported = (compromised (cards g ! c) \<and> rand_e rg i 0 < thr),
               using_card = c, at_pos = p\<rparr>"
  have t: "txs g1 = txs g @ [t]" "poss g1 = poss g"
    by (simp_all add: g1 tx_row_fields t_def)
  have lt: "linked n m rg t" "tid t = i"
    using c p by (simp_all add: linked_def t_def)
  show ?case
    unfolding step using new lt t by (intro exI [of _ "t # new"]) simp
qed

lemma pump_loop_empty_range:
  assumes "n = 0 \<or> m = 0"
  shows "pump_loop n m thr rg (i # js) g = (Some (ValueError ''empty range for randrange()''), g)"
proof (cases "n \<le> 0")
  case True
  then show ?thesis by (simp add: rint_empty)
next
  case False
  then have m: "m \<le> 0" using assms by simp
  from rint_cases [of n "card_e rg i"] show ?thesis
    by (auto simp: rint_empty [OF m])
qed

lemma sample_ok:
  "0 \<le> f \<Longrightarrow> f \<le> m \<Longrightarrow> sample [0..m - 1] f e = Inr (draw_sample [0..m - 1] (nat f) e)"
  by (simp add: sample_def)

lemma sample_negative:
  "f < 0 \<Longrightarrow> sample xs f e = Inl (ValueError ''Sample larger than population or is negative'')"
  by (simp add: sample_def)

lemma run_store_populated:
  "map nid (cards (foldl compromise_pos (init_data (drop_database g) n m) ks)) = [0..n - 1]"
  "map nid (poss (foldl compromise_pos (init_data (drop_database g) n m) ks)) = [0..m - 1]"
  "txs (foldl compromise_pos (init_data (drop_database g) n m) ks) = []"
  by (simp_all add: foldl_compromise_pos_fields init_data_fields drop_database_def
        map_nid_fresh_nodes)

lemma pump_transactions_ok:
  assumes "map nid (cards g) = [0..n - 1]" and "map nid (poss g) = [0..m - 1]"
    and "1 \<le> n" and "1 \<le> m"
  shows "fst (pump_transactions g n m tx pct rg) = None"
proof -
  from pump_loop_populated [OF assms, of "fmt_f pct" rg "[0..tx - 1]"]
  obtain new where "pump_loop n m (fmt_f pct) rg [0..tx - 1] g =
      (None, \<lparr>cards = cards (snd (pump_loop n m (fmt_f pct) rg [0..tx - 1] g)), poss = poss g,
              txs = txs g @ new\<rparr>)"
    by blast
  then show ?thesis unfolding pump_transactions_def by (metis fst_conv)
qed

lemma pump_loop_append:
  "pump_loop n m thr rg (xs @ ys) g =
     (case pump_loop n m thr rg xs g of
        (None, g1) \<Rightarrow> pump_loop n m thr rg ys g1
      | (Some e, g1) \<Rightarrow> (Some e, g1))"
  by (induction xs arbitrary: g) (simp_all split: sum.splits)

lemma pump_loop_no_range:
  assumes "n \<le> 0 \<or> m \<le> 0"
  shows "snd (pump_loop n m thr rg js g) = g"
proof (cases js)
  case Nil
  then show ?thesis by simp
next
  case (Cons i js')
  show ?thesis
  proof (cases "n \<le> 0")
    case True
    then show ?thesis by (simp add: Cons rint_empty)
  next
    case False
    then have m: "m \<le> 0" using assms by simp
    from rint_cases [of n "card_e rg i"] show ?thesis
      by (auto simp: Cons rint_empty [OF m])
  qed
qed

lemma pump_loop_sel:
  assumes "map nid (cards g) = [0..n - 1]" and "map nid (poss g) = [0..m - 1]"
    and "1 \<le> n" and "1 \<le> m"
  shows "\<exists>new. fst (pump_loop n m thr rg js g) = None \<and>
           poss (snd (pump_loop n m thr rg js g)) = poss g \<and>
           txs (snd (pump_loop n m thr rg js g)) = txs g @ new \<and>
           map nid (cards (snd (pump_loop n m thr rg js g))) = [0..n - 1] \<and>
           map tid new = js \<and> (\<forall>t \<in> set new. linked n m rg t)"
proof -
  define r where "r = pump_loop n m thr rg js g"
  from pump_loop_populated [OF assms, of thr rg js]
  obtain new where new:
    "r = (None, \<lparr>cards = cards (snd r), poss = poss g, txs = txs g @ new\<rparr>)"
    "map nid (cards (snd r)) = [0..n - 1]"
    "map tid new = js" "\<forall>t \<in> set new. linked n m rg t"
    unfolding r_def by blast
  have "fst r = None" and "txs (snd r) = txs g @ new" and "poss (snd r) = poss g"
    by (subst new(1), simp)+
  with new(2-4) show ?thesis unfolding r_def by blast
qed

lemma pump_loop_nth:
  assumes pop: "map nid (cards g) = [0..n - 1]" "map nid (poss g) = [0..m - 1]"
    and n: "1 \<le> n" and m: "1 \<le> m" and k: "0 \<le> k" "k < tx"
  shows "\<exists>b c p new1 new2.
      pump_loop n m thr rg [0..k - 1] g = (None, b) \<and> txs b = txs g @ new1 \<and>
      length new1 = nat k \<and> c < length (cards b) \<and>
      txs (snd (pump_loop n m thr rg [0..tx - 1] g)) =
        txs g @ new1 @
        \<lparr>tid = k, fraudReported = (compromised (cards b ! c) \<and> rand_e rg k 0 < thr),
          using_card = c, at_pos = p\<rparr> # new2"
proof -
  define b where "b = snd (pump_loop n m thr rg [0..k - 1] g)"
  from pump_loop_sel [OF pop n m, of thr rg "[0..k - 1]"]
  obtain new1 where new1:
    "fst (pump_loop n m thr rg [0..k - 1] g) = None" "poss b = poss g" "txs b = txs g @ new1"
    "map nid (cards b) = [0..n - 1]" "map tid new1 = [0..k - 1]"
    unfolding b_def by blast
  have b: "pump_loop n m thr rg [0..k - 1] g = (None, b)"
    using new1(1) by (simp add: b_def prod_eq_iff)
  have tb: "txs b = txs g @ new1" and pb: "poss b = poss g"
    using new1 by simp_all
  have l1: "length new1 = nat k"
    using arg_cong [OF new1(5), of length] k by simp
  have popb: "map nid (cards b) = [0..n - 1]" "map nid (poss b) = [0..m - 1]"
    using new1(4) pop(2) pb by simp_all
  define c where "c = card_e rg k mod nat n"
  define p where "p = pos_e rg k mod nat m"
  have c: "rint n (card_e rg k) = Inr (int c)" "int c < n"
    using n by (simp_all add: rint_in_range c_def mod_nat_bound)
  have p: "rint m (pos_e rg k) = Inr (int p)" "int p < m"
    using m by (simp_all add: rint_in_range p_def mod_nat_bound)
  have mc: "match_ids (cards b) (int c) = [c]"
    using match_ids_range [OF popb(1), of "int c"] c by simp
  have mp: "match_ids (poss b) (int p) = [p]"
    using match_ids_range [OF popb(2), of "int p"] p by simp
  define b1 where "b1 = create_tx b (int c) (int p) k thr (rand_e rg k)"
  have b1: "b1 = tx_row k thr b ((c, p), rand_e rg k 0)"
    unfolding b1_def by (rule create_tx_single [OF mc mp])
  define t0 where "t0 = \<lparr>tid = k, fraudReported = (compromised (cards b ! c) \<and> rand_e rg k 0 < thr),
          using_card = c, at_pos = p\<rparr>"
  have tb1: "txs b1 = txs b @ [t0]"
    by (simp add: b1 tx_row_fields t0_def)
  have popb1: "map nid (cards b1) = [0..n - 1]" "map nid (poss b1) = [0..m - 1]"
    using popb by (simp_all add: b1 tx_row_fields map_nid_update)
  from pump_loop_sel [OF popb1 n m, of thr rg "[k + 1..tx - 1]"]
  obtain new2 where new2:
    "txs (snd (pump_loop n m thr rg [k + 1..tx - 1] b1)) = txs b1 @ new2"
    by blast
  have split: "[0..tx - 1] = [0..k - 1] @ (k # [k + 1..tx - 1])"
  proof -
    have "[0..tx - 1] = [0..k - 1] @ [k..tx - 1]"
      using k by (intro upto_split1) simp_all
    also have "[k..tx - 1] = k # [k + 1..tx - 1]"
      using k by (simp add: upto_rec1)
    finally show ?thesis .
  qed
  have step: "pump_loop n m thr rg (k # [k + 1..tx - 1]) b = pump_loop n m thr rg [k + 1..tx - 1] b1"
    by (simp add: c p b1_def)
  have "pump_loop n m thr rg [0..tx - 1] g = pump_loop n m thr rg [k + 1..tx - 1] b1"
    by (simp only: split pump_loop_append b prod.case option.case step)
  then have "txs (snd (pump_loop n m thr rg [0..tx - 1] g)) = txs b1 @ new2"
    using new2 by simp
  then have fin: "txs (snd (pump_loop n m thr rg [0..tx - 1] g)) = txs g @ new1 @ t0 # new2"
    by (simp add: tb1 tb)
  have cb: "c < length (cards b)" by (rule match_ids_bound [OF mc])
  show ?thesis
    using b tb l1 cb fin unfolding t0_def by blast
qed

lemma tid_nth:
  assumes "map tid new = [0..tx - 1]" and "i < length new"
  shows "tid (new ! i) = int i"
proof -
  have len: "length new = nat tx"
    using arg_cong [OF assms(1), of length] by simp
  have "tid (new ! i) = map tid new ! i" using assms(2) by simp
  also have "\<dots> = [0..tx - 1] ! i" by (simp only: assms(1))
  also have "\<dots> = 0 + int i" using assms(2) len by (intro nth_upto) simp
  finally show ?thesis by simp
qed

lemma pump_transactions_links:
  assumes pop: "map nid (cards g) = [0..n - 1]" "map nid (poss g) = [0..m - 1]" "txs g = []"
    and n: "1 \<le> n" and m: "1 \<le> m" and tx: "0 \<le> tx"
    and len: "length ps = nat tx"
    and rng: "\<forall>(c, p) \<in> set ps. 0 \<le> c \<and> c < n \<and> 0 \<le> p \<and> p < m"
  shows "links (snd (pump_transactions g n m tx pct
           \<lparr>sample_e = (\<lambda>k. 0), card_e = (\<lambda>i. nat (fst (ps ! nat i))),
             pos_e = (\<lambda>i. nat (snd (ps ! nat i))), rand_e = (\<lambda>i k. 0)\<rparr>)) = ps"
proof -
  define rg where "rg = \<lparr>sample_e = (\<lambda>k. 0), card_e = (\<lambda>i. nat (fst (ps ! nat i))),
             pos_e = (\<lambda>i. nat (snd (ps ! nat i))), rand_e = (\<lambda>i k::nat. 0::rat)\<rparr>"
  define g' where "g' = snd (pump_transactions g n m tx pct rg)"
  from pump_loop_sel [OF pop(1,2) n m, of "fmt_f pct" rg "[0..tx - 1]"]
  obtain new where new: "poss g' = poss g" "txs g' = new" "map nid (cards g') = [0..n - 1]"
    "map tid new = [0..tx - 1]" "\<forall>t \<in> set new. linked n m rg t"
    unfolding g'_def pump_transactions_def using pop(3) by auto
  have ln: "length new = nat tx"
    using arg_cong [OF new(4), of length] tx by simp
  have lc: "length (cards g') = nat n" by (rule length_range [OF new(3)])
  have lp: "length (poss g) = nat m" by (rule length_range [OF pop(2)])
  have "map (\<lambda>t. (nid (cards g' ! using_card t), nid (poss g' ! at_pos t))) new = ps"
  proof (rule nth_equalityI)
    show "length (map (\<lambda>t. (nid (cards g' ! using_card t), nid (poss g' ! at_pos t))) new) = length ps"
      by (simp add: ln len)
    fix i
    assume "i < length (map (\<lambda>t. (nid (cards g' ! using_card t), nid (poss g' ! at_pos t))) new)"
    then have i: "i < length new" by simp
    define t where "t = new ! i"
    have tid: "tid t = int i" unfolding t_def by (rule tid_nth [OF new(4) i])
    have l: "linked n m rg t" using new(5) i by (simp add: t_def)
    have mem: "ps ! i \<in> set ps" using i ln len by simp
    then have r: "0 \<le> fst (ps ! i)" "fst (ps ! i) < n" "0 \<le> snd (ps ! i)" "snd (ps ! i) < m"
      using rng by (auto simp: case_prod_beta)
    have "rint n (card_e rg (tid t)) = Inr (fst (ps ! i))"
      using rint_onto [OF r(1,2)] by (simp add: tid rg_def)
    then have c: "int (using_card t) = fst (ps ! i)" using l by (simp add: linked_def)
    have "rint m (pos_e rg (tid t)) = Inr (snd (ps ! i))"
      using rint_onto [OF r(3,4)] by (simp add: tid rg_def)
    then have p: "int (at_pos t) = snd (ps ! i)" using l by (simp add: linked_def)
    have b: "using_card t < length (cards g')" "at_pos t < length (poss g)"
      using l lc lp by (auto simp: linked_def)
    have "nid (cards g' ! using_card t) = int (using_card t)"
      by (rule nid_nth_range [OF new(3) b(1)])
    moreover have "nid (poss g ! at_pos t) = int (at_pos t)"
      by (rule nid_nth_range [OF pop(2) b(2)])
    ultimately show "map (\<lambda>t. (nid (cards g' ! using_card t), nid (poss g' ! at_pos t))) new ! i = ps ! i"
      using i c p by (simp add: t_def [symmetric] new(1) prod_eq_iff)
  qed
  then have "links g' = ps"
    unfolding links_def new(2) .
  then show ?thesis
    unfolding g'_def rg_def .
qed

text \<open>What \<open>%f\<close> writes is a multiple of \<open>10\<^sup>-\<^sup>6\<close> within half a unit of the number.\<close>

lemma fmt_f_rounds:
  "(\<exists>z::int. fmt_f x = of_int z / 1000000) \<and> \<bar>fmt_f x - x\<bar> \<le> 1 / 2000000"
proof -
  define s where "s = x * 1000000"
  define f where "f = \<lfloor>s\<rfloor>"
  define d where "d = s - of_int f"
  define z where "z = (if d < 1 / 2 then f else if 1 / 2 < d then f + 1
                       else if even f then f else f + 1)"
  have fm: "fmt_f x = of_int z / 1000000"
    by (simp add: fmt_f_def Let_def s_def f_def d_def z_def)
  have d: "0 \<le> d" "d < 1"
    unfolding d_def f_def by linarith+
  have "\<bar>of_int z - s\<bar> \<le> 1 / 2"
    using d unfolding z_def d_def by (auto simp: abs_if)
  then have "\<bar>of_int z / 1000000 - s / 1000000\<bar> \<le> (1 / 2) / 1000000"
    by (simp add: abs_if divide_simps split: if_splits)
  moreover have "s / 1000000 = x" by (simp add: s_def)
  ultimately have "\<bar>fmt_f x - x\<bar> \<le> 1 / 2000000"
    by (simp add: fm)
  with fm show ?thesis by blast
qed

section \<open>Population Initializer\<close>

text \<open>
  Claim C8.  For non-negative counts, \<open>init_data\<close> on the empty graph creates exactly
  \<open>card_count\<close> cards with the ids \<open>0, \<dots>, card_count - 1\<close> and exactly \<open>pos_count\<close>
  devices with the ids \<open>0, \<dots>, pos_count - 1\<close>, none of them compromised (and no
  node of a kind whose count is 0), and no transaction.
\<close>

theorem init_data_population:
  assumes "0 \<le> card_count" and "0 \<le> pos_count"
  shows "let g = init_data \<lparr>cards = [], poss = [], txs = []\<rparr> card_count pos_count
         in int (length (cards g)) = card_count \<and> map nid (cards g) = [0..card_count - 1] \<and>
            int (length (poss g)) = pos_count \<and> map nid (poss g) = [0..pos_count - 1] \<and>
            (\<forall>n \<in> set (cards g) \<union> set (poss g). compromised n = False) \<and> txs g = []"
  using assms
  by (auto simp: init_data_fields map_nid_fresh_nodes length_fresh_nodes Let_def
           dest: fresh_nodes_clean)

theorem init_data_population_witness:
  "cards (init_data \<lparr>cards = [], poss = [], txs = []\<rparr> 2 1) =
     [\<lparr>nid = 0, compromised = False\<rparr>, \<lparr>nid = 1, compromised = False\<rparr>] \<and>
   int (length (cards (init_data \<lparr>cards = [], poss = [], txs = []\<rparr> 2 1))) = 2 \<and>
   poss (init_data \<lparr>cards = [], poss = [], txs = []\<rparr> 2 1) = [\<lparr>nid = 0, compromised = False\<rparr>]"
  using init_data_population [of 2 1]
  by (simp add: init_data_fields fresh_nodes_def Let_def upto.simps)

section \<open>Fraud Query Engine\<close>

text \<open>
  Claim C7.  \<open>get_fraudulent_transactions\<close> answers with status 200 and one row for
  each transaction whose \<open>fraudReported\<close> flag is true: the ids returned are exactly the
  ids of those transactions, and when there is none the answer is the empty list, still
  with status 200.
\<close>

theorem get_fraudulent_transactions_exact:
  "fst (get_fraudulent_transactions g) = Response 200 \<and>
   set (snd (get_fraudulent_transactions g)) = tid ` {t \<in> set (txs g). fraudReported t} \<and>
   length (snd (get_fraudulent_transactions g)) = length (filter fraudReported (txs g))"
  by (auto simp: get_fraudulent_transactions_def)

section \<open>Compromise propagation and fraud reports\<close>

text \<open>
  Claim C1, as the code has it.  A transaction statement that matches one card and one
  device overwrites the card's flag with the device's flag and changes no other card and
  no device.  So a compromised card stays compromised through a transaction that uses
  another card or that uses it at a compromised device; a transaction that uses it at an
  uncompromised device sets its flag back to false.
\<close>

theorem create_tx_propagation:
  assumes "match_ids (cards g) card_id = [c]" and "match_ids (poss g) pos_id = [p]"
  shows "let g' = create_tx g card_id pos_id i thr rnd
         in compromised (cards g' ! c) = compromised (poss g ! p) \<and>
            (\<forall>k. k \<noteq> c \<longrightarrow> cards g' ! k = cards g ! k) \<and>
            (\<forall>k. compromised (cards g ! k) \<and> (k \<noteq> c \<or> compromised (poss g ! p)) \<longrightarrow>
                 compromised (cards g' ! k)) \<and>
            map nid (cards g') = map nid (cards g) \<and> poss g' = poss g"
  using assms match_ids_bound [OF assms(1)]
  by (auto simp: create_tx_single tx_row_fields Let_def map_nid_update nth_list_update)

theorem create_tx_propagation_witness:
  "match_ids (cards after_first) 0 = [0] \<and> match_ids (poss after_first) 1 = [1] \<and>
   compromised (cards after_first ! 0) \<and>
   \<not> compromised (cards (create_tx after_first 0 1 1 (1 / 2) (\<lambda>k. 0)) ! 0)"
proof -
  have h1: "match_ids (cards after_first) 0 = [0]" by code_simp
  have h2: "match_ids (poss after_first) 1 = [1]" by code_simp
  have v: "compromised (cards after_first ! 0)" "\<not> compromised (poss after_first ! 1)"
    by (simp_all add: after_first_def)
  show ?thesis
    using create_tx_propagation [OF h1 h2, where i = 1 and thr = "1 / 2" and rnd = "\<lambda>k. 0"] h1 h2 v by (simp add: Let_def)
qed

text \<open>
  The run with one card, two devices of which device 0 is compromised, and two
  transactions of card 0, the first at device 0 and the second at device 1: the first
  transaction compromises the card, the second one resets it.
\<close>

theorem create_tx_resets_compromised:
  "generate_data empty_graph (ex_request 1) ex_rng = (Response 201, after_first) \<and>
   compromised (cards after_first ! 0) \<and> \<not> compromised (poss after_first ! 1) \<and>
   nid (cards after_first ! 0) = 0 \<and> nid (poss after_first ! 1) = 1 \<and>
   generate_data empty_graph (ex_request 2) ex_rng =
     (Response 201, create_tx after_first 0 1 1 (fmt_f (1 / 2)) (rand_e ex_rng 1)) \<and>
   \<not> compromised (cards (create_tx after_first 0 1 1 (fmt_f (1 / 2)) (rand_e ex_rng 1)) ! 0)"
  by code_simp

text \<open>One statement that matches one card and one device: the new transaction reads the
  card's flag before the \<open>SET\<close>.\<close>

lemma create_tx_fraud_reported:
  assumes "match_ids (cards g) card_id = [c]" and "match_ids (poss g) pos_id = [p]"
  shows "let g' = create_tx g card_id pos_id i thr rnd; t = last (txs g')
         in txs g' = txs g @ [t] \<and> tid t = i \<and> using_card t = c \<and> at_pos t = p \<and>
            fraudReported t = (compromised (cards g ! c) \<and> rnd 0 < thr) \<and>
            (\<not> compromised (cards g ! c) \<longrightarrow>
               \<not> fraudReported t \<and> compromised (cards g' ! c) = compromised (poss g ! p))"
  using assms match_ids_bound [OF assms(1)]
  by (simp add: create_tx_single tx_row_fields Let_def)

text \<open>
  Claim C2, as the code has it.  In a run of the generator on the store that
  \<open>generate_data\<close> hands to it, transaction \<open>k\<close> has the id \<open>k\<close>, and its
  \<open>fraudReported\<close> is the flag that its card has in the store the first \<open>k\<close>
  transactions leave, together with the outcome \<open>rand() < thr\<close> of the trial, where
  \<open>thr\<close> is \<open>report_pct\<close> as \<open>%f\<close> writes it into the statement: rounded to six
  decimals (a multiple of \<open>10\<^sup>-\<^sup>6\<close> within half a unit of \<open>report_pct\<close>), not
  \<open>report_pct\<close> itself.  So a report needs a card that was compromised
  before this transaction, and a card that this transaction compromises gets no report
  from it.
\<close>

theorem pump_transactions_fraud_reported:
  "(let g = foldl compromise_pos (init_data (drop_database g0) card_count pos_count) ks;
        final = snd (pump_transactions g card_count pos_count tx_count report_pct rg)
    in \<forall>k<length (txs final).
         (let before = snd (pump_transactions g card_count pos_count (int k) report_pct rg);
              t = txs final ! k
          in tid t = int k \<and> length (txs before) = k \<and> using_card t < length (cards before) \<and>
             fraudReported t =
               (compromised (cards before ! using_card t) \<and>
                rand_e rg (int k) 0 < fmt_f report_pct) \<and>
             (\<not> compromised (cards before ! using_card t) \<longrightarrow> \<not> fraudReported t))) \<and>
   (\<exists>z::int. fmt_f report_pct = of_int z / 1000000) \<and>
   \<bar>fmt_f report_pct - report_pct\<bar> \<le> 1 / 2000000"
proof -
  define g where "g = foldl compromise_pos (init_data (drop_database g0) card_count pos_count) ks"
  define final where "final = snd (pump_transactions g card_count pos_count tx_count report_pct rg)"
  have pop: "map nid (cards g) = [0..card_count - 1]" "map nid (poss g) = [0..pos_count - 1]"
    "txs g = []"
    unfolding g_def by (rule run_store_populated)+
  have main: "tid (txs final ! k) = int k \<and>
      length (txs (snd (pump_transactions g card_count pos_count (int k) report_pct rg))) = k \<and>
      using_card (txs final ! k) <
        length (cards (snd (pump_transactions g card_count pos_count (int k) report_pct rg))) \<and>
      fraudReported (txs final ! k) =
        (compromised (cards (snd (pump_transactions g card_count pos_count (int k) report_pct rg)) !
                      using_card (txs final ! k)) \<and>
         rand_e rg (int k) 0 < fmt_f report_pct)"
    if k: "k < length (txs final)" for k
  proof (cases "1 \<le> card_count \<and> 1 \<le> pos_count")
    case False
    then have "card_count \<le> 0 \<or> pos_count \<le> 0" by auto
    then have "final = g"
      unfolding final_def pump_transactions_def by (rule pump_loop_no_range)
    with k pop(3) show ?thesis by simp
  next
    case True
    then have n: "1 \<le> card_count" and m: "1 \<le> pos_count" by simp_all
    from pump_loop_sel [OF pop(1,2) n m, of "fmt_f report_pct" rg "[0..tx_count - 1]"]
    obtain new where nw: "txs final = new" "map tid new = [0..tx_count - 1]"
      unfolding final_def pump_transactions_def using pop(3) by auto
    have "length (txs final) = nat tx_count"
      using arg_cong [OF nw(2), of length] nw(1) by simp
    with k have kt: "0 \<le> int k" "int k < tx_count" by simp_all
    from pump_loop_nth [OF pop(1,2) n m kt, of "fmt_f report_pct" rg]
    obtain b c p new1 new2 where
      b: "pump_loop card_count pos_count (fmt_f report_pct) rg [0..int k - 1] g = (None, b)"
      and tb: "txs b = txs g @ new1" and l1: "length new1 = nat (int k)"
      and cb: "c < length (cards b)"
      and fin: "txs final = txs g @ new1 @
        \<lparr>tid = int k,
          fraudReported = (compromised (cards b ! c) \<and> rand_e rg (int k) 0 < fmt_f report_pct),
          using_card = c, at_pos = p\<rparr> # new2"
      unfolding final_def pump_transactions_def by blast
    have before: "snd (pump_transactions g card_count pos_count (int k) report_pct rg) = b"
      unfolding pump_transactions_def by (simp add: b)
    have t: "txs final ! k =
        \<lparr>tid = int k,
          fraudReported = (compromised (cards b ! c) \<and> rand_e rg (int k) 0 < fmt_f report_pct),
          using_card = c, at_pos = p\<rparr>"
      using l1 by (simp add: fin pop(3) nth_append)
    show ?thesis
      unfolding before t using tb l1 cb pop(3) by simp
  qed
  have "\<forall>k<length (txs final).
      tid (txs final ! k) = int k \<and>
      length (txs (snd (pump_transactions g card_count pos_count (int k) report_pct rg))) = k \<and>
      using_card (txs final ! k) <
        length (cards (snd (pump_transactions g card_count pos_count (int k) report_pct rg))) \<and>
      fraudReported (txs final ! k) =
        (compromised (cards (snd (pump_transactions g card_count pos_count (int k) report_pct rg)) !
                      using_card (txs final ! k)) \<and>
         rand_e rg (int k) 0 < fmt_f report_pct) \<and>
      (\<not> compromised (cards (snd (pump_transactions g card_count pos_count (int k) report_pct rg)) !
                      using_card (txs final ! k)) \<longrightarrow> \<not> fraudReported (txs final ! k))"
    using main by blast
  then show ?thesis
    unfolding Let_def g_def [symmetric] final_def [symmetric]
    using fmt_f_rounds [of report_pct] by (intro conjI) blast+
qed

theorem pump_transactions_fraud_reported_witness:
  "1 < length (txs (snd (pump_transactions
         (foldl compromise_pos (init_data (drop_database empty_graph) 1 2) [0]) 1 2 2 (1 / 2) ex_rng))) \<and>
   compromised (cards (snd (pump_transactions
         (foldl compromise_pos (init_data (drop_database empty_graph) 1 2) [0]) 1 2 (int 1) (1 / 2) ex_rng)) ! 0) \<and>
   fraudReported (txs (snd (pump_transactions
         (foldl compromise_pos (init_data (drop_database empty_graph) 1 2) [0]) 1 2 2 (1 / 2) ex_rng)) ! 1) =
     (compromised (cards (snd (pump_transactions
         (foldl compromise_pos (init_data (drop_database empty_graph) 1 2) [0]) 1 2 (int 1) (1 / 2) ex_rng)) !
        using_card (txs (snd (pump_transactions
         (foldl compromise_pos (init_data (drop_database empty_graph) 1 2) [0]) 1 2 2 (1 / 2) ex_rng)) ! 1)) \<and>
      rand_e ex_rng (int 1) 0 < fmt_f (1 / 2))"
proof -
  have h: "1 < length (txs (snd (pump_transactions
         (foldl compromise_pos (init_data (drop_database empty_graph) 1 2) [0]) 1 2 2 (1 / 2) ex_rng)))"
    by code_simp
  have v: "compromised (cards (snd (pump_transactions
         (foldl compromise_pos (init_data (drop_database empty_graph) 1 2) [0]) 1 2 (int 1) (1 / 2) ex_rng)) ! 0)"
    by code_simp
  from pump_transactions_fraud_reported
         [of empty_graph 1 2 "[0]" 2 "1 / 2" ex_rng, THEN conjunct1, unfolded Let_def,
          rule_format, OF h]
  show ?thesis using h v by blast
qed

text \<open>
  With \<open>report_pct = 1/10000000\<close> the threshold in the statement is \<open>0.000000\<close>.  In
  the example run card 0 is compromised when transaction 1 is created and the draw 0 is
  below \<open>report_pct\<close>, yet the transaction is not reported.
\<close>

theorem pump_transactions_report_threshold:
  "generate_data empty_graph (small_request 1) ex_rng = (Response 201, after_first) \<and>
   compromised (cards after_first ! 0) \<and>
   rand_e ex_rng 1 0 < req_reports (small_request 2) \<and>
   generate_data empty_graph (small_request 2) ex_rng =
     (Response 201,
      \<lparr>cards = [\<lparr>nid = 0, compromised = False\<rparr>],
        poss = [\<lparr>nid = 0, compromised = True\<rparr>, \<lparr>nid = 1, compromised = False\<rparr>],
        txs = [\<lparr>tid = 0, fraudReported = False, using_card = 0, at_pos = 0\<rparr>,
               \<lparr>tid = 1, fraudReported = False, using_card = 0, at_pos = 1\<rparr>]\<rparr>)"
  by code_simp

section \<open>Transaction Generator\<close>

text \<open>The generator on any store that holds the cards \<open>0, \<dots>, card_count - 1\<close> and the
  devices \<open>0, \<dots>, pos_count - 1\<close>.\<close>

lemma pump_transactions_populated:
  assumes "map nid (cards g) = [0..card_count - 1]" and "map nid (poss g) = [0..pos_count - 1]"
    and "1 \<le> card_count" and "1 \<le> pos_count" and "0 \<le> tx_count"
  shows "let r = pump_transactions g card_count pos_count tx_count report_pct rg;
             g' = snd r; new = drop (length (txs g)) (txs g')
         in fst r = None \<and> txs g' = txs g @ new \<and>
            int (length new) = tx_count \<and> map tid new = [0..tx_count - 1] \<and>
            map nid (cards g') = [0..card_count - 1] \<and> poss g' = poss g \<and>
            (\<forall>t \<in> set new.
               using_card t < length (cards g') \<and> at_pos t < length (poss g') \<and>
               rint card_count (card_e rg (tid t)) = Inr (nid (cards g' ! using_card t)) \<and>
               rint pos_count (pos_e rg (tid t)) = Inr (nid (poss g' ! at_pos t)) \<and>
               0 \<le> nid (cards g' ! using_card t) \<and> nid (cards g' ! using_card t) < card_count \<and>
               0 \<le> nid (poss g' ! at_pos t) \<and> nid (poss g' ! at_pos t) < pos_count)"
proof -
  define r where "r = pump_transactions g card_count pos_count tx_count report_pct rg"
  from pump_loop_populated [OF assms(1-4), of "fmt_f report_pct" rg "[0..tx_count - 1]"]
  obtain new where new:
    "r = (None, \<lparr>cards = cards (snd r), poss = poss g, txs = txs g @ new\<rparr>)"
    "map nid (cards (snd r)) = [0..card_count - 1]"
    "map tid new = [0..tx_count - 1]" "\<forall>t \<in> set new. linked card_count pos_count rg t"
    unfolding r_def pump_transactions_def by blast
  have fst: "fst r = None" and txs: "txs (snd r) = txs g @ new" and poss: "poss (snd r) = poss g"
    by (subst new(1), simp)+
  have len: "int (length new) = tx_count"
    using arg_cong [OF new(3), of length] assms(5) by simp
  have lc: "length (cards (snd r)) = nat card_count"
    by (rule length_range [OF new(2)])
  have lp: "length (poss g) = nat pos_count"
    by (rule length_range [OF assms(2)])
  have each: "using_card t < length (cards (snd r)) \<and> at_pos t < length (poss g) \<and>
       rint card_count (card_e rg (tid t)) = Inr (nid (cards (snd r) ! using_card t)) \<and>
       rint pos_count (pos_e rg (tid t)) = Inr (nid (poss g ! at_pos t)) \<and>
       0 \<le> nid (cards (snd r) ! using_card t) \<and> nid (cards (snd r) ! using_card t) < card_count \<and>
       0 \<le> nid (poss g ! at_pos t) \<and> nid (poss g ! at_pos t) < pos_count"
    if "t \<in> set new" for t
  proof -
    from that new(4) have l: "linked card_count pos_count rg t" by blast
    then have b: "using_card t < length (cards (snd r))" "at_pos t < length (poss g)"
      using lc lp by (auto simp: linked_def)
    have "nid (cards (snd r) ! using_card t) = int (using_card t)"
      by (rule nid_nth_range [OF new(2) b(1)])
    moreover have "nid (poss g ! at_pos t) = int (at_pos t)"
      by (rule nid_nth_range [OF assms(2) b(2)])
    ultimately show ?thesis using l b by (simp add: linked_def)
  qed
  show ?thesis
    unfolding Let_def r_def [symmetric] using fst txs poss len new(2,3) each by simp
qed

text \<open>
  Claim C9.  \<open>generate_data\<close> hands to the generator the emptied store, initialised
  for \<open>card_count\<close> and \<open>pos_count\<close> and seeded.  On this store, whatever the store
  before and whatever the seeding, with \<open>1 \<le> card_count\<close>, \<open>1 \<le> pos_count\<close> and
  \<open>0 \<le> tx_count\<close>, \<open>pump_transactions\<close> returns without an error and creates exactly
  \<open>tx_count\<close> transactions with the ids \<open>0, \<dots>, tx_count - 1\<close> in order; each of them
  is linked to the card whose id was drawn by \<open>rint card_count\<close> and to the device
  whose id was drawn by \<open>rint pos_count\<close>, ids of \<open>[0, card_count)\<close> and
  \<open>[0, pos_count)\<close>.  Every sequence of \<open>tx_count\<close> pairs of a card id and a device
  id of these ranges is the sequence of links of the run for some outcome of the draws:
  the draws reach every id of the ranges, may repeat, and do not constrain each other.
  How likely an outcome is, is not part of the model.
\<close>

theorem pump_transactions_creates:
  assumes "1 \<le> card_count" and "1 \<le> pos_count" and "0 \<le> tx_count"
  shows "let g = foldl compromise_pos (init_data (drop_database g0) card_count pos_count) ks
         in (let r = pump_transactions g card_count pos_count tx_count report_pct rg; g' = snd r
             in fst r = None \<and> int (length (txs g')) = tx_count \<and>
                map tid (txs g') = [0..tx_count - 1] \<and>
                map nid (cards g') = [0..card_count - 1] \<and>
                map nid (poss g') = [0..pos_count - 1] \<and>
                (\<forall>t \<in> set (txs g').
                   using_card t < length (cards g') \<and> at_pos t < length (poss g') \<and>
                   rint card_count (card_e rg (tid t)) = Inr (nid (cards g' ! using_card t)) \<and>
                   rint pos_count (pos_e rg (tid t)) = Inr (nid (poss g' ! at_pos t)) \<and>
                   0 \<le> nid (cards g' ! using_card t) \<and>
                   nid (cards g' ! using_card t) < card_count \<and>
                   0 \<le> nid (poss g' ! at_pos t) \<and> nid (poss g' ! at_pos t) < pos_count)) \<and>
            (\<forall>ps. length ps = nat tx_count \<and>
                  (\<forall>(c, p) \<in> set ps. 0 \<le> c \<and> c < card_count \<and> 0 \<le> p \<and> p < pos_count) \<longrightarrow>
                  (\<exists>rg'. links (snd (pump_transactions g card_count pos_count tx_count
                                       report_pct rg')) = ps))"
proof -
  define g where "g = foldl compromise_pos (init_data (drop_database g0) card_count pos_count) ks"
  have pop: "map nid (cards g) = [0..card_count - 1]" "map nid (poss g) = [0..pos_count - 1]"
    "txs g = []"
    unfolding g_def by (rule run_store_populated)+
  have a: "let r = pump_transactions g card_count pos_count tx_count report_pct rg; g' = snd r
             in fst r = None \<and> int (length (txs g')) = tx_count \<and>
                map tid (txs g') = [0..tx_count - 1] \<and>
                map nid (cards g') = [0..card_count - 1] \<and>
                map nid (poss g') = [0..pos_count - 1] \<and>
                (\<forall>t \<in> set (txs g').
                   using_card t < length (cards g') \<and> at_pos t < length (poss g') \<and>
                   rint card_count (card_e rg (tid t)) = Inr (nid (cards g' ! using_card t)) \<and>
                   rint pos_count (pos_e rg (tid t)) = Inr (nid (poss g' ! at_pos t)) \<and>
                   0 \<le> nid (cards g' ! using_card t) \<and>
                   nid (cards g' ! using_card t) < card_count \<and>
                   0 \<le> nid (poss g' ! at_pos t) \<and> nid (poss g' ! at_pos t) < pos_count)"
    using pump_transactions_populated [OF pop(1,2) assms, of report_pct rg] pop(2,3)
    by (auto simp: Let_def)
  have b: "\<exists>rg'. links (snd (pump_transactions g card_count pos_count tx_count report_pct rg')) = ps"
    if "length ps = nat tx_count"
      "\<forall>(c, p) \<in> set ps. 0 \<le> c \<and> c < card_count \<and> 0 \<le> p \<and> p < pos_count" for ps
    using pump_transactions_links [OF pop assms that, of report_pct] by blast
  show ?thesis
    unfolding g_def [symmetric] using a b by (simp add: Let_def)
qed

theorem pump_transactions_creates_witness:
  "(1::int) \<le> 1 \<and> (1::int) \<le> 2 \<and> (0::int) \<le> 2 \<and>
   fst (pump_transactions (foldl compromise_pos (init_data (drop_database after_first) 1 2) [0])
          1 2 2 (1 / 2) ex_rng) = None \<and>
   length [(0, 1), (0, 0::int)] = nat 2 \<and>
   (\<exists>rg'. links (snd (pump_transactions
                        (foldl compromise_pos (init_data (drop_database after_first) 1 2) [0])
                        1 2 2 (1 / 2) rg')) = [(0, 1), (0, 0)])"
proof -
  have h: "(1::int) \<le> 1" "(1::int) \<le> 2" "(0::int) \<le> 2" by simp_all
  have l: "length [(0, 1), (0, 0::int)] = nat 2"
    "\<forall>(c, p) \<in> set [(0::int, 1::int), (0, 0)]. 0 \<le> c \<and> c < 1 \<and> 0 \<le> p \<and> p < 2"
    by simp_all
  note t = pump_transactions_creates [OF h, of after_first "[0]" "1 / 2" ex_rng, unfolded Let_def]
  from t have 1: "fst (pump_transactions
        (foldl compromise_pos (init_data (drop_database after_first) 1 2) [0])
          1 2 2 (1 / 2) ex_rng) = None"
    by blast
  from t l have 2: "\<exists>rg'. links (snd (pump_transactions
                        (foldl compromise_pos (init_data (drop_database after_first) 1 2) [0])
                        1 2 2 (1 / 2) rg')) = [(0, 1), (0, 0)]"
    by blast
  from 1 2 h l(1) show ?thesis by blast
qed

section \<open>Generating a run\<close>

text \<open>
  Claim C3, as the code has it.  When \<open>frauds > pos\<close>, \<open>generate_data\<close> answers 418
  and leaves the store as it was.  When \<open>0 \<le> frauds \<le> pos\<close> it drops the store,
  initialises the population on the empty store, seeds the sampled devices on the result
  and runs the generator on the result of that, in this order; the answer is the
  generator's error or 201 with the generator's store, and it is 201 whenever there is
  at least one card and one device.  When \<open>frauds < 0\<close> (and \<open>frauds \<le> pos\<close>) the run
  ends in the error of the sample, after the drop and the initialisation: no device is
  seeded and the generator is not run.
\<close>

theorem generate_data_order:
  "(req_pos data < req_frauds data \<longrightarrow> generate_data g data rg = (Response 418, g)) \<and>
   (0 \<le> req_frauds data \<and> req_frauds data \<le> req_pos data \<longrightarrow>
      (let g1 = init_data (drop_database g) (req_cards data) (req_pos data);
           g2 = foldl compromise_pos g1
                  (draw_sample [0..req_pos data - 1] (nat (req_frauds data)) (sample_e rg));
           r3 = pump_transactions g2 (req_cards data) (req_pos data)
                  (req_transactions data) (req_reports data) rg
       in generate_data g data rg =
            (case fst r3 of Some err \<Rightarrow> Uncaught err | None \<Rightarrow> Response 201, snd r3))) \<and>
   (req_frauds data < 0 \<and> req_frauds data \<le> req_pos data \<longrightarrow>
      generate_data g data rg =
        (Uncaught (ValueError ''Sample larger than population or is negative''),
         init_data (drop_database g) (req_cards data) (req_pos data))) \<and>
   (0 \<le> req_frauds data \<and> req_frauds data \<le> req_pos data \<and>
    1 \<le> req_cards data \<and> 1 \<le> req_pos data \<longrightarrow>
      fst (generate_data g data rg) = Response 201)"
proof (intro conjI impI)
  assume "req_pos data < req_frauds data"
  then show "generate_data g data rg = (Response 418, g)"
    by (simp add: generate_data_def)
next
  assume a: "0 \<le> req_frauds data \<and> req_frauds data \<le> req_pos data"
  then show "let g1 = init_data (drop_database g) (req_cards data) (req_pos data);
           g2 = foldl compromise_pos g1
                  (draw_sample [0..req_pos data - 1] (nat (req_frauds data)) (sample_e rg));
           r3 = pump_transactions g2 (req_cards data) (req_pos data)
                  (req_transactions data) (req_reports data) rg
       in generate_data g data rg =
            (case fst r3 of Some err \<Rightarrow> Uncaught err | None \<Rightarrow> Response 201, snd r3)"
    by (simp add: generate_data_def Let_def compromise_pos_devices_def sample_ok
             split: prod.splits option.splits)
next
  assume "req_frauds data < 0 \<and> req_frauds data \<le> req_pos data"
  then show "generate_data g data rg =
        (Uncaught (ValueError ''Sample larger than population or is negative''),
         init_data (drop_database g) (req_cards data) (req_pos data))"
    by (simp add: generate_data_def Let_def compromise_pos_devices_def sample_negative)
next
  assume a: "0 \<le> req_frauds data \<and> req_frauds data \<le> req_pos data \<and>
    1 \<le> req_cards data \<and> 1 \<le> req_pos data"
  let ?g2 = "foldl compromise_pos (init_data (drop_database g) (req_cards data) (req_pos data))
               (draw_sample [0..req_pos data - 1] (nat (req_frauds data)) (sample_e rg))"
  have "fst (pump_transactions ?g2 (req_cards data) (req_pos data)
          (req_transactions data) (req_reports data) rg) = None"
    using a by (intro pump_transactions_ok run_store_populated) simp_all
  then show "fst (generate_data g data rg) = Response 201"
    using a
    by (auto simp: generate_data_def Let_def compromise_pos_devices_def sample_ok
             split: prod.splits option.splits)
qed

theorem generate_data_order_witness:
  "generate_data after_first (bad_request\<lparr>req_frauds := 3\<rparr>) ex_rng = (Response 418, after_first) \<and>
   generate_data after_first (ex_request 1) ex_rng = (Response 201, after_first) \<and>
   generate_data after_first neg_request ex_rng =
     (Uncaught (ValueError ''Sample larger than population or is negative''),
      init_data (drop_database after_first) (req_cards neg_request) (req_pos neg_request)) \<and>
   fst (generate_data after_first (ex_request 1) ex_rng) = Response 201"
proof -
  have a: "req_pos (bad_request\<lparr>req_frauds := 3\<rparr>) < req_frauds (bad_request\<lparr>req_frauds := 3\<rparr>)"
    by (simp add: bad_request_def)
  have b: "0 \<le> req_frauds (ex_request 1) \<and> req_frauds (ex_request 1) \<le> req_pos (ex_request 1)"
    by (simp add: ex_request_def)
  have c: "req_frauds neg_request < 0 \<and> req_frauds neg_request \<le> req_pos neg_request"
    by (simp add: neg_request_def)
  have d: "0 \<le> req_frauds (ex_request 1) \<and> req_frauds (ex_request 1) \<le> req_pos (ex_request 1) \<and>
    1 \<le> req_cards (ex_request 1) \<and> 1 \<le> req_pos (ex_request 1)"
    by (simp add: ex_request_def)
  have v: "(let g1 = init_data (drop_database after_first) (req_cards (ex_request 1)) (req_pos (ex_request 1));
           g2 = foldl compromise_pos g1
                  (draw_sample [0..req_pos (ex_request 1) - 1] (nat (req_frauds (ex_request 1))) (sample_e ex_rng));
           r3 = pump_transactions g2 (req_cards (ex_request 1)) (req_pos (ex_request 1))
                  (req_transactions (ex_request 1)) (req_reports (ex_request 1)) ex_rng
       in (case fst r3 of Some err \<Rightarrow> Uncaught err | None \<Rightarrow> Response 201, snd r3)) =
       (Response 201, after_first)"
    by code_simp
  from generate_data_order [of "bad_request\<lparr>req_frauds := 3\<rparr>" after_first ex_rng] a
  have 1: "generate_data after_first (bad_request\<lparr>req_frauds := 3\<rparr>) ex_rng = (Response 418, after_first)"
    by blast
  from generate_data_order [of "ex_request 1" after_first ex_rng] b
  have "(let g1 = init_data (drop_database after_first) (req_cards (ex_request 1)) (req_pos (ex_request 1));
           g2 = foldl compromise_pos g1
                  (draw_sample [0..req_pos (ex_request 1) - 1] (nat (req_frauds (ex_request 1))) (sample_e ex_rng));
           r3 = pump_transactions g2 (req_cards (ex_request 1)) (req_pos (ex_request 1))
                  (req_transactions (ex_request 1)) (req_reports (ex_request 1)) ex_rng
       in generate_data after_first (ex_request 1) ex_rng =
            (case fst r3 of Some err \<Rightarrow> Uncaught err | None \<Rightarrow> Response 201, snd r3))"
    by blast
  then have 2: "generate_data after_first (ex_request 1) ex_rng = (Response 201, after_first)"
    using v unfolding Let_def by simp
  from generate_data_order [of neg_request after_first ex_rng] c
  have 3: "generate_data after_first neg_request ex_rng =
     (Uncaught (ValueError ''Sample larger than population or is negative''),
      init_data (drop_database after_first) (req_cards neg_request) (req_pos neg_request))"
    by blast
  from generate_data_order [of "ex_request 1" after_first ex_rng] d
  have 4: "fst (generate_data after_first (ex_request 1) ex_rng) = Response 201"
    by blast
  from 1 2 3 4 show ?thesis by blast
qed

text \<open>
  The request for one card, two devices, one transaction and \<open>- 1\<close> compromised
  devices passes the guard; the store is dropped and initialised, then the sample raises:
  no device is compromised and no transaction exists.
\<close>

theorem generate_data_negative_frauds:
  "req_frauds neg_request \<le> req_pos neg_request \<and>
   generate_data after_first neg_request ex_rng =
     (Uncaught (ValueError ''Sample larger than population or is negative''),
      \<lparr>cards = [\<lparr>nid = 0, compromised = False\<rparr>],
        poss = [\<lparr>nid = 0, compromised = False\<rparr>, \<lparr>nid = 1, compromised = False\<rparr>],
        txs = []\<rparr>)"
  by code_simp

text \<open>
  Claim C10.  With at least one transaction requested and \<open>cards = 0\<close> or \<open>pos = 0\<close>
  (and \<open>0 \<le> frauds \<le> pos\<close>, so that neither the guard nor the sample rejects the
  request), \<open>generate_data\<close> ends with the \<open>ValueError\<close> of \<open>randint\<close> on an empty
  range, not with the 418 response, and the store it leaves is the dropped, initialised
  and seeded one: the old contents are gone and no transaction exists.
\<close>

theorem generate_data_empty_range:
  assumes "1 \<le> req_transactions data" and "req_cards data = 0 \<or> req_pos data = 0"
    and "0 \<le> req_frauds data" and "req_frauds data \<le> req_pos data"
  shows "let g1 = init_data (drop_database g) (req_cards data) (req_pos data);
             g2 = snd (compromise_pos_devices g1 (req_pos data) (req_frauds data) (sample_e rg))
         in generate_data g data rg = (Uncaught (ValueError ''empty range for randrange()''), g2) \<and>
            cards g2 = fresh_nodes (req_cards data) \<and>
            map nid (poss g2) = [0..req_pos data - 1] \<and> txs g2 = []"
proof -
  define g1 where "g1 = init_data (drop_database g) (req_cards data) (req_pos data)"
  define g2 where
    "g2 = snd (compromise_pos_devices g1 (req_pos data) (req_frauds data) (sample_e rg))"
  have sel: "compromise_pos_devices g1 (req_pos data) (req_frauds data) (sample_e rg) = (None, g2)"
    using compromise_pos_devices_ok [OF assms(3,4), of g1 "sample_e rg"]
    by (simp add: g2_def prod_eq_iff)
  have up: "[0..req_transactions data - 1] = 0 # [1..req_transactions data - 1]"
    using assms(1) by (simp add: upto_rec1)
  have pump: "pump_transactions g2 (req_cards data) (req_pos data) (req_transactions data)
                (req_reports data) rg = (Some (ValueError ''empty range for randrange()''), g2)"
    unfolding pump_transactions_def up by (rule pump_loop_empty_range [OF assms(2)])
  have run: "generate_data g data rg = (Uncaught (ValueError ''empty range for randrange()''), g2)"
    using assms(4) by (simp add: generate_data_def Let_def g1_def [symmetric] sel pump)
  have store: "cards g2 = fresh_nodes (req_cards data)"
    "map nid (poss g2) = [0..req_pos data - 1]" "txs g2 = []"
    by (simp_all add: g2_def compromise_pos_devices_fields g1_def init_data_fields
          drop_database_def map_nid_fresh_nodes)
  show ?thesis
    unfolding Let_def g1_def [symmetric] g2_def [symmetric] using run store by simp
qed

theorem generate_data_empty_range_witness:
  "generate_data after_first bad_request ex_rng =
     (Uncaught (ValueError ''empty range for randrange()''),
      \<lparr>cards = [], poss = [\<lparr>nid = 0, compromised = True\<rparr>, \<lparr>nid = 1, compromised = False\<rparr>],
        txs = []\<rparr>)"
proof -
  have h: "1 \<le> req_transactions bad_request" "req_cards bad_request = 0 \<or> req_pos bad_request = 0"
    "0 \<le> req_frauds bad_request" "req_frauds bad_request \<le> req_pos bad_request"
    by (simp_all add: bad_request_def)
  have v: "snd (compromise_pos_devices
             (init_data (drop_database after_first) (req_cards bad_request) (req_pos bad_request))
             (req_pos bad_request) (req_frauds bad_request) (sample_e ex_rng)) =
           \<lparr>cards = [], poss = [\<lparr>nid = 0, compromised = True\<rparr>, \<lparr>nid = 1, compromised = False\<rparr>],
             txs = []\<rparr>"
    by code_simp
  show ?thesis
    using generate_data_empty_range [OF h, of after_first ex_rng] by (simp add: Let_def v)
qed

section \<open>Ranked suspicious devices\<close>

lemma distinct_fraud_rows: "distinct (fraud_rows g)"
  by (simp add: fraud_rows_def distinct_product)

lemma set_fraud_rows:
  "set (fraud_rows g) =
     {(i, j). i < length (txs g) \<and> j < length (txs g) \<and> fraudReported (txs g ! i) \<and> i \<noteq> j \<and>
              using_card (txs g ! j) = using_card (txs g ! i)}"
  by (auto simp: fraud_rows_def)

lemma count_fraud_rows:
  "length (filter (\<lambda>r. row_pos g r = p) (fraud_rows g)) =
     card {(i, j). i < length (txs g) \<and> j < length (txs g) \<and> fraudReported (txs g ! i) \<and>
                   i \<noteq> j \<and> using_card (txs g ! j) = using_card (txs g ! i) \<and>
                   nid (poss g ! at_pos (txs g ! j)) = p}"
proof -
  have "distinct (filter (\<lambda>r. row_pos g r = p) (fraud_rows g))"
    by (simp add: distinct_fraud_rows)
  then have "length (filter (\<lambda>r. row_pos g r = p) (fraud_rows g)) =
             card (set (filter (\<lambda>r. row_pos g r = p) (fraud_rows g)))"
    by (simp only: distinct_card)
  also have "set (filter (\<lambda>r. row_pos g r = p) (fraud_rows g)) =
     {(i, j). i < length (txs g) \<and> j < length (txs g) \<and> fraudReported (txs g ! i) \<and>
                   i \<noteq> j \<and> using_card (txs g ! j) = using_card (txs g ! i) \<and>
                   nid (poss g ! at_pos (txs g ! j)) = p}"
    by (auto simp: set_fraud_rows row_pos_def)
  finally show ?thesis .
qed

text \<open>
  Claim C6.  Every pair \<open>(p, n)\<close> that \<open>get_compromised_pos\<close> returns has \<open>n > 1\<close>,
  and \<open>n\<close> is the number of matches for \<open>p\<close>: the pairs of a transaction with
  \<open>fraudReported\<close> and a different transaction of the same card that is at a device
  with id \<open>p\<close>.  The result is in descending order of the counts, and no id occurs
  twice in it.
\<close>

theorem get_compromised_pos_ranked:
  "(\<forall>(p, n) \<in> set (get_compromised_pos g).
      1 < n \<and>
      n = int (card {(i, j). i < length (txs g) \<and> j < length (txs g) \<and>
                             fraudReported (txs g ! i) \<and> i \<noteq> j \<and>
                             using_card (txs g ! j) = using_card (txs g ! i) \<and>
                             nid (poss g ! at_pos (txs g ! j)) = p})) \<and>
   sorted_wrt (\<lambda>a b. snd b \<le> snd a) (get_compromised_pos g) \<and>
   distinct (map fst (get_compromised_pos g))"
proof (intro conjI)
  show "\<forall>(p, n) \<in> set (get_compromised_pos g).
      1 < n \<and>
      n = int (card {(i, j). i < length (txs g) \<and> j < length (txs g) \<and>
                             fraudReported (txs g ! i) \<and> i \<noteq> j \<and>
                             using_card (txs g ! j) = using_card (txs g ! i) \<and>
                             nid (poss g ! at_pos (txs g ! j)) = p})"
    by (auto simp: get_compromised_pos_def Let_def count_fraud_rows)
  have "sorted (map (\<lambda>r. - snd r) (get_compromised_pos g))"
    by (simp add: get_compromised_pos_def Let_def)
  then show "sorted_wrt (\<lambda>a b. snd b \<le> snd a) (get_compromised_pos g)"
    by (simp add: sorted_map)
  have "distinct (map fst (filter (\<lambda>r. 1 < snd r)
          (map (\<lambda>p. (p, int (length (filter (\<lambda>r. row_pos g r = p) (fraud_rows g)))))
               (remdups (map (row_pos g) (fraud_rows g))))))"
    by (intro distinct_map_filter) (simp add: comp_def)
  then show "distinct (map fst (get_compromised_pos g))"
    unfolding get_compromised_pos_def Let_def
    by (simp add: distinct_map)
qed

theorem get_compromised_pos_ranked_witness:
  "get_compromised_pos ring_graph = [(1, 4), (0, 2)] \<and>
   (4::int) = int (card {(i, j). i < length (txs ring_graph) \<and> j < length (txs ring_graph) \<and>
                             fraudReported (txs ring_graph ! i) \<and> i \<noteq> j \<and>
                             using_card (txs ring_graph ! j) = using_card (txs ring_graph ! i) \<and>
                             nid (poss ring_graph ! at_pos (txs ring_graph ! j)) = 1})"
proof -
  have v: "get_compromised_pos ring_graph = [(1, 4), (0, 2)]" by code_simp
  from get_compromised_pos_ranked [of ring_graph]
  have "\<forall>(p, n) \<in> set (get_compromised_pos ring_graph).
      1 < n \<and>
      n = int (card {(i, j). i < length (txs ring_graph) \<and> j < length (txs ring_graph) \<and>
                             fraudReported (txs ring_graph ! i) \<and> i \<noteq> j \<and>
                             using_card (txs ring_graph ! j) = using_card (txs ring_graph ! i) \<and>
                             nid (poss ring_graph ! at_pos (txs ring_graph ! j)) = p})"
    by (rule conjunct1)
  then show ?thesis unfolding v by simp
qed

section \<open>Remediation Engine\<close>

lemma clear_row_fields:
  "poss (clear_row s k) = poss s"
  "txs (clear_row s k) = (txs s)[k := (txs s ! k)\<lparr>fraudReported := False\<rparr>]"
  "cards (clear_row s k) =
     (cards s)[using_card (txs s ! k) := (cards s ! using_card (txs s ! k))\<lparr>compromised := False\<rparr>]"
  by (simp_all add: clear_row_def Let_def)

lemma foldl_clear_row:
  assumes "\<forall>k \<in> set ks. k < length (txs g)"
  shows "foldl clear_row g ks =
     \<lparr>cards = map (\<lambda>c. if \<exists>k \<in> set ks. using_card (txs g ! k) = c
                        then (cards g ! c)\<lparr>compromised := False\<rparr> else cards g ! c)
                   [0..<length (cards g)],
      poss = poss g,
      txs = map (\<lambda>k. if k \<in> set ks then (txs g ! k)\<lparr>fraudReported := False\<rparr> else txs g ! k)
                 [0..<length (txs g)]\<rparr>"
  using assms
proof (induction ks rule: rev_induct)
  case Nil
  show ?case by (simp add: map_nth)
next
  case (snoc k ks)
  let ?s = "foldl clear_row g ks"
  have s: "?s =
     \<lparr>cards = map (\<lambda>c. if \<exists>k \<in> set ks. using_card (txs g ! k) = c
                        then (cards g ! c)\<lparr>compromised := False\<rparr> else cards g ! c)
                   [0..<length (cards g)],
      poss = poss g,
      txs = map (\<lambda>k. if k \<in> set ks then (txs g ! k)\<lparr>fraudReported := False\<rparr> else txs g ! k)
                 [0..<length (txs g)]\<rparr>"
    using snoc by simp
  have k: "k < length (txs g)" using snoc.prems by simp
  have ts: "txs ?s = map (\<lambda>k. if k \<in> set ks then (txs g ! k)\<lparr>fraudReported := False\<rparr>
                                 else txs g ! k) [0..<length (txs g)]"
    and cs: "cards ?s = map (\<lambda>c. if \<exists>k \<in> set ks. using_card (txs g ! k) = c
                        then (cards g ! c)\<lparr>compromised := False\<rparr> else cards g ! c)
                   [0..<length (cards g)]"
    and ps: "poss ?s = poss g"
    by (subst s, simp)+
  have u: "using_card (txs ?s ! k) = using_card (txs g ! k)"
    by (simp add: ts k)
  have p: "poss (clear_row ?s k) = poss g"
    by (simp add: clear_row_fields ps)
  have t: "txs (clear_row ?s k) =
        map (\<lambda>j. if j \<in> set (ks @ [k]) then (txs g ! j)\<lparr>fraudReported := False\<rparr> else txs g ! j)
            [0..<length (txs g)]"
    unfolding clear_row_fields ts
    by (rule nth_equalityI) (auto simp: nth_list_update k)
  have c: "cards (clear_row ?s k) =
        map (\<lambda>c. if \<exists>j \<in> set (ks @ [k]). using_card (txs g ! j) = c
                        then (cards g ! c)\<lparr>compromised := False\<rparr> else cards g ! c)
                   [0..<length (cards g)]"
    unfolding clear_row_fields u unfolding cs
  proof (rule nth_equalityI)
    fix i
    assume "i < length ((map (\<lambda>c. if \<exists>k \<in> set ks. using_card (txs g ! k) = c
                        then (cards g ! c)\<lparr>compromised := False\<rparr> else cards g ! c)
                   [0..<length (cards g)])
              [using_card (txs g ! k) :=
                 (map (\<lambda>c. if \<exists>k \<in> set ks. using_card (txs g ! k) = c
                        then (cards g ! c)\<lparr>compromised := False\<rparr> else cards g ! c)
                   [0..<length (cards g)] ! using_card (txs g ! k))\<lparr>compromised := False\<rparr>])"
    then have i: "i < length (cards g)" by simp
    show "(map (\<lambda>c. if \<exists>k \<in> set ks. using_card (txs g ! k) = c
                        then (cards g ! c)\<lparr>compromised := False\<rparr> else cards g ! c)
                   [0..<length (cards g)])
              [using_card (txs g ! k) :=
                 (map (\<lambda>c. if \<exists>k \<in> set ks. using_card (txs g ! k) = c
                        then (cards g ! c)\<lparr>compromised := False\<rparr> else cards g ! c)
                   [0..<length (cards g)] ! using_card (txs g ! k))\<lparr>compromised := False\<rparr>] ! i =
          map (\<lambda>c. if \<exists>j \<in> set (ks @ [k]). using_card (txs g ! j) = c
                        then (cards g ! c)\<lparr>compromised := False\<rparr> else cards g ! c)
                   [0..<length (cards g)] ! i"
    proof (cases "using_card (txs g ! k) = i")
      case True
      then show ?thesis using i by (simp add: nth_list_update_eq)
    next
      case False
      then show ?thesis using i by (auto simp: nth_list_update_neq)
    qed
  qed simp
  have "foldl clear_row g (ks @ [k]) = clear_row ?s k" by simp
  also have "\<dots> = \<lparr>cards = cards (clear_row ?s k), poss = poss (clear_row ?s k),
                     txs = txs (clear_row ?s k)\<rparr>" by simp
  finally show ?case by (simp only: p t c)
qed

lemma resolve_row_resolved: "resolve_row g p = resolved g (\<lambda>j. j = p)"
proof -
  let ?g1 = "g\<lparr>poss := (poss g)[p := (poss g ! p)\<lparr>compromised := False\<rparr>]\<rparr>"
  let ?ks = "filter (\<lambda>k. at_pos (txs g ! k) = p) [0..<length (txs g)]"
  have "resolve_row g p = foldl clear_row ?g1 ?ks"
    by (simp add: resolve_row_def Let_def)
  also have "\<dots> = \<lparr>cards = map (\<lambda>c. if \<exists>k \<in> set ?ks. using_card (txs ?g1 ! k) = c
                        then (cards ?g1 ! c)\<lparr>compromised := False\<rparr> else cards ?g1 ! c)
                   [0..<length (cards ?g1)],
      poss = poss ?g1,
      txs = map (\<lambda>k. if k \<in> set ?ks then (txs ?g1 ! k)\<lparr>fraudReported := False\<rparr> else txs ?g1 ! k)
                 [0..<length (txs ?g1)]\<rparr>"
    by (rule foldl_clear_row) simp
  also have "\<dots> = resolved g (\<lambda>j. j = p)"
    unfolding resolved_def
    by (auto intro!: nth_equalityI simp: nth_list_update)
  finally show ?thesis .
qed

lemma resolved_sel:
  "cards (resolved g P) =
     map (\<lambda>c. if \<exists>k<length (txs g). P (at_pos (txs g ! k)) \<and> using_card (txs g ! k) = c
              then (cards g ! c)\<lparr>compromised := False\<rparr> else cards g ! c)
         [0..<length (cards g)]"
  "poss (resolved g P) =
     map (\<lambda>j. if P j then (poss g ! j)\<lparr>compromised := False\<rparr> else poss g ! j)
         [0..<length (poss g)]"
  "txs (resolved g P) =
     map (\<lambda>k. if P (at_pos (txs g ! k)) then (txs g ! k)\<lparr>fraudReported := False\<rparr>
              else txs g ! k)
         [0..<length (txs g)]"
  by (simp_all add: resolved_def)

lemma resolved_edges:
  "length (txs (resolved g P)) = length (txs g)"
  "length (cards (resolved g P)) = length (cards g)"
  "length (poss (resolved g P)) = length (poss g)"
  "k < length (txs g) \<Longrightarrow> at_pos (txs (resolved g P) ! k) = at_pos (txs g ! k)"
  "k < length (txs g) \<Longrightarrow> using_card (txs (resolved g P) ! k) = using_card (txs g ! k)"
  by (simp_all add: resolved_sel)

lemma resolved_resolved: "resolved (resolved g P) Q = resolved g (\<lambda>j. P j \<or> Q j)"
proof (rule graph.equality)
  let ?h = "resolved g P"
  show "txs (resolved ?h Q) = txs (resolved g (\<lambda>j. P j \<or> Q j))"
    by (subst resolved_sel(3), subst (2) resolved_sel(3), rule nth_equalityI)
       (auto simp: resolved_edges, auto simp: resolved_sel)
  show "poss (resolved ?h Q) = poss (resolved g (\<lambda>j. P j \<or> Q j))"
    by (subst resolved_sel(2), subst (2) resolved_sel(2), rule nth_equalityI)
       (auto simp: resolved_edges, auto simp: resolved_sel)
  have ex: "(\<exists>k<length (txs ?h). Q (at_pos (txs ?h ! k)) \<and> using_card (txs ?h ! k) = c) =
            (\<exists>k<length (txs g). Q (at_pos (txs g ! k)) \<and> using_card (txs g ! k) = c)" for c
    by (auto simp: resolved_edges)
  show "cards (resolved ?h Q) = cards (resolved g (\<lambda>j. P j \<or> Q j))"
  proof (rule nth_equalityI)
    show "length (cards (resolved ?h Q)) = length (cards (resolved g (\<lambda>j. P j \<or> Q j)))"
      by (simp add: resolved_edges)
    fix c
    assume "c < length (cards (resolved ?h Q))"
    then have c: "c < length (cards g)" by (simp add: resolved_edges)
    define A where "A \<longleftrightarrow>
      (\<exists>k<length (txs g). P (at_pos (txs g ! k)) \<and> using_card (txs g ! k) = c)"
    define B where "B \<longleftrightarrow>
      (\<exists>k<length (txs g). Q (at_pos (txs g ! k)) \<and> using_card (txs g ! k) = c)"
    have AB: "(\<exists>k<length (txs g). (P (at_pos (txs g ! k)) \<or> Q (at_pos (txs g ! k))) \<and>
                 using_card (txs g ! k) = c) \<longleftrightarrow> A \<or> B"
      unfolding A_def B_def by blast
    have hc: "cards ?h ! c = (if A then (cards g ! c)\<lparr>compromised := False\<rparr> else cards g ! c)"
      unfolding A_def resolved_sel(1) using c nth_map_upt [of c "length (cards g)" 0]
      by (simp; blast?)
    have "cards (resolved ?h Q) ! c =
        (if \<exists>k<length (txs ?h). Q (at_pos (txs ?h ! k)) \<and> using_card (txs ?h ! k) = c
         then (cards ?h ! c)\<lparr>compromised := False\<rparr> else cards ?h ! c)"
      using c by (subst resolved_sel(1)) (simp add: resolved_edges(1,2,3); blast?)
    also have "\<dots> = (if B then (cards ?h ! c)\<lparr>compromised := False\<rparr> else cards ?h ! c)"
      by (simp only: ex B_def)
    also have "\<dots> = (if A \<or> B then (cards g ! c)\<lparr>compromised := False\<rparr> else cards g ! c)"
      by (simp add: hc)
    also have "\<dots> = cards (resolved g (\<lambda>j. P j \<or> Q j)) ! c"
      using c by (subst resolved_sel(1)) (simp add: AB; blast?)
    finally show "cards (resolved ?h Q) ! c = cards (resolved g (\<lambda>j. P j \<or> Q j)) ! c" .
  qed
qed simp

lemma resolved_none: "resolved g (\<lambda>j. False) = g"
  by (simp add: resolved_def map_nth)

lemma foldl_resolve_row: "foldl resolve_row g ps = resolved g (\<lambda>j. j \<in> set ps)"
proof (induction ps arbitrary: g)
  case Nil
  show ?case by (simp add: resolved_none)
next
  case (Cons p ps)
  have "foldl resolve_row g (p # ps) = foldl resolve_row (resolve_row g p) ps" by simp
  also have "\<dots> = resolved (resolve_row g p) (\<lambda>j. j \<in> set ps)" by (rule Cons.IH)
  also have "\<dots> = resolved g (\<lambda>j. j = p \<or> j \<in> set ps)"
    by (simp only: resolve_row_resolved resolved_resolved)
  also have "(\<lambda>j. j = p \<or> j \<in> set ps) = (\<lambda>j. j \<in> set (p # ps))" by auto
  finally show ?case .
qed

lemma resolve_pos_resolved:
  "resolve_pos g pos_id = resolved g (\<lambda>j. j < length (poss g) \<and> nid (poss g ! j) = pos_id)"
proof -
  have "(\<lambda>j. j \<in> set (match_ids (poss g) pos_id)) =
        (\<lambda>j. j < length (poss g) \<and> nid (poss g ! j) = pos_id)"
    by (auto simp: match_ids_def)
  then show ?thesis by (simp add: resolve_pos_def foldl_resolve_row)
qed

text \<open>
  Claim C5.  \<open>resolve_pos\<close> changes the store in exactly this way: every device with the
  given id gets \<open>compromised = false\<close>; every transaction whose \<open>At\<close> edge leads to such
  a device gets \<open>fraudReported = false\<close>; every card that such a transaction uses gets
  \<open>compromised = false\<close>; every other node, every id and every edge stays as it was.
\<close>

theorem resolve_pos_exact:
  "resolve_pos g pos_id =
     \<lparr>cards = map (\<lambda>c. if \<exists>k<length (txs g). at_pos (txs g ! k) < length (poss g) \<and>
                              nid (poss g ! at_pos (txs g ! k)) = pos_id \<and>
                              using_card (txs g ! k) = c
                        then (cards g ! c)\<lparr>compromised := False\<rparr> else cards g ! c)
                   [0..<length (cards g)],
      poss = map (\<lambda>p. if nid p = pos_id then p\<lparr>compromised := False\<rparr> else p) (poss g),
      txs = map (\<lambda>t. if at_pos t < length (poss g) \<and> nid (poss g ! at_pos t) = pos_id
                        then t\<lparr>fraudReported := False\<rparr> else t) (txs g)\<rparr>"
proof -
  have p: "map (\<lambda>j. if j < length (poss g) \<and> nid (poss g ! j) = pos_id
                     then (poss g ! j)\<lparr>compromised := False\<rparr> else poss g ! j)
               [0..<length (poss g)] =
           map (\<lambda>p. if nid p = pos_id then p\<lparr>compromised := False\<rparr> else p) (poss g)"
    by (rule nth_equalityI) simp_all
  have t: "map (\<lambda>k. if at_pos (txs g ! k) < length (poss g) \<and>
                        nid (poss g ! at_pos (txs g ! k)) = pos_id
                     then (txs g ! k)\<lparr>fraudReported := False\<rparr> else txs g ! k)
               [0..<length (txs g)] =
           map (\<lambda>t. if at_pos t < length (poss g) \<and> nid (poss g ! at_pos t) = pos_id
                        then t\<lparr>fraudReported := False\<rparr> else t) (txs g)"
    by (rule nth_equalityI) simp_all
  have c: "(\<lambda>c. if \<exists>k<length (txs g). (at_pos (txs g ! k) < length (poss g) \<and>
                              nid (poss g ! at_pos (txs g ! k)) = pos_id) \<and>
                              using_card (txs g ! k) = c
                        then (cards g ! c)\<lparr>compromised := False\<rparr> else cards g ! c) =
           (\<lambda>c. if \<exists>k<length (txs g). at_pos (txs g ! k) < length (poss g) \<and>
                              nid (poss g ! at_pos (txs g ! k)) = pos_id \<and>
                              using_card (txs g ! k) = c
                        then (cards g ! c)\<lparr>compromised := False\<rparr> else cards g ! c)"
    by (simp add: conj_assoc)
  show ?thesis
    unfolding resolve_pos_resolved resolved_def p t c ..
qed

theorem resolve_pos_exact_witness:
  "resolve_pos ring_graph 0 =
     \<lparr>cards = [\<lparr>nid = 0, compromised = False\<rparr>, \<lparr>nid = 1, compromised = True\<rparr>],
      poss = [\<lparr>nid = 0, compromised = False\<rparr>, \<lparr>nid = 1, compromised = False\<rparr>,
              \<lparr>nid = 2, compromised = True\<rparr>],
      txs = [\<lparr>tid = 0, fraudReported = False, using_card = 0, at_pos = 0\<rparr>,
             \<lparr>tid = 1, fraudReported = False, using_card = 0, at_pos = 0\<rparr>,
             \<lparr>tid = 2, fraudReported = False, using_card = 0, at_pos = 1\<rparr>,
             \<lparr>tid = 3, fraudReported = False, using_card = 0, at_pos = 1\<rparr>,
             \<lparr>tid = 4, fraudReported = True, using_card = 1, at_pos = 2\<rparr>,
             \<lparr>tid = 5, fraudReported = False, using_card = 1, at_pos = 2\<rparr>]\<rparr>"
proof -
  have e: "\<lparr>cards = map (\<lambda>c. if \<exists>k<length (txs ring_graph).
                              at_pos (txs ring_graph ! k) < length (poss ring_graph) \<and>
                              nid (poss ring_graph ! at_pos (txs ring_graph ! k)) = 0 \<and>
                              using_card (txs ring_graph ! k) = c
                        then (cards ring_graph ! c)\<lparr>compromised := False\<rparr> else cards ring_graph ! c)
                   [0..<length (cards ring_graph)],
      poss = map (\<lambda>p. if nid p = 0 then p\<lparr>compromised := False\<rparr> else p) (poss ring_graph),
      txs = map (\<lambda>t. if at_pos t < length (poss ring_graph) \<and> nid (poss ring_graph ! at_pos t) = 0
                        then t\<lparr>fraudReported := False\<rparr> else t) (txs ring_graph)\<rparr> =
     \<lparr>cards = [\<lparr>nid = 0, compromised = False\<rparr>, \<lparr>nid = 1, compromised = True\<rparr>],
      poss = [\<lparr>nid = 0, compromised = False\<rparr>, \<lparr>nid = 1, compromised = False\<rparr>,
              \<lparr>nid = 2, compromised = True\<rparr>],
      txs = [\<lparr>tid = 0, fraudReported = False, using_card = 0, at_pos = 0\<rparr>,
             \<lparr>tid = 1, fraudReported = False, using_card = 0, at_pos = 0\<rparr>,
             \<lparr>tid = 2, fraudReported = False, using_card = 0, at_pos = 1\<rparr>,
             \<lparr>tid = 3, fraudReported = False, using_card = 0, at_pos = 1\<rparr>,
             \<lparr>tid = 4, fraudReported = True, using_card = 1, at_pos = 2\<rparr>,
             \<lparr>tid = 5, fraudReported = False, using_card = 1, at_pos = 2\<rparr>]\<rparr>"
    by code_simp
  from resolve_pos_exact [of ring_graph 0] show ?thesis unfolding e .
qed

text \<open>
  Claim C4, as the code has it.  After \<open>resolve_pos\<close> every device with the given id is
  uncompromised, every transaction at such a device has \<open>fraudReported = false\<close>, and
  the card of every such transaction is uncompromised.  The ids and the edges of the
  store are the same as before, and every transaction that is not at a device with the
  given id is left as it was: a transaction of one of these cards at another device keeps
  its \<open>fraudReported\<close> flag.
\<close>

theorem resolve_pos_clears:
  "let g' = resolve_pos g pos_id
   in (\<forall>j<length (poss g'). nid (poss g' ! j) = pos_id \<longrightarrow> \<not> compromised (poss g' ! j)) \<and>
      (\<forall>k<length (txs g').
          at_pos (txs g' ! k) < length (poss g') \<and>
          nid (poss g' ! at_pos (txs g' ! k)) = pos_id \<longrightarrow>
            \<not> fraudReported (txs g' ! k) \<and>
            (using_card (txs g' ! k) < length (cards g') \<longrightarrow>
               \<not> compromised (cards g' ! using_card (txs g' ! k)))) \<and>
      map nid (poss g') = map nid (poss g) \<and> map nid (cards g') = map nid (cards g) \<and>
      map tid (txs g') = map tid (txs g) \<and> map using_card (txs g') = map using_card (txs g) \<and>
      map at_pos (txs g') = map at_pos (txs g) \<and>
      (\<forall>k<length (txs g).
          \<not> (at_pos (txs g ! k) < length (poss g) \<and> nid (poss g ! at_pos (txs g ! k)) = pos_id) \<longrightarrow>
            txs g' ! k = txs g ! k)"
proof -
  let ?P = "\<lambda>j. j < length (poss g) \<and> nid (poss g ! j) = pos_id"
  let ?g = "resolved g ?P"
  have nid: "nid (poss ?g ! j) = nid (poss g ! j)" if "j < length (poss g)" for j
    using that by (simp add: resolved_sel)
  have pos: "\<not> compromised (poss ?g ! j)" if "j < length (poss g)" "nid (poss g ! j) = pos_id" for j
    using that by (simp add: resolved_sel)
  have tx: "\<not> fraudReported (txs ?g ! k)"
    if "k < length (txs g)" "?P (at_pos (txs g ! k))" for k
    using that by (simp add: resolved_sel)
  have keep: "txs ?g ! k = txs g ! k"
    if "k < length (txs g)" "\<not> ?P (at_pos (txs g ! k))" for k
    using that by (auto simp: resolved_sel)
  have card: "\<not> compromised (cards ?g ! using_card (txs g ! k))"
    if k: "k < length (txs g)" "?P (at_pos (txs g ! k))"
      and c: "using_card (txs g ! k) < length (cards g)" for k
  proof -
    have "\<exists>i<length (txs g). ?P (at_pos (txs g ! i)) \<and>
            using_card (txs g ! i) = using_card (txs g ! k)"
      using k by blast
    then show ?thesis
      unfolding resolved_sel(1) using c nth_map_upt [of "using_card (txs g ! k)" "length (cards g)" 0]
      by simp
  qed
  have m1: "map nid (poss ?g) = map nid (poss g)"
    by (rule nth_equalityI) (simp_all add: resolved_sel)
  have m2: "map nid (cards ?g) = map nid (cards g)"
    by (rule nth_equalityI) (simp_all add: resolved_sel)
  have m3: "map tid (txs ?g) = map tid (txs g)" "map using_card (txs ?g) = map using_card (txs g)"
    "map at_pos (txs ?g) = map at_pos (txs g)"
    by (rule nth_equalityI, simp_all add: resolved_sel)+
  have a: "\<forall>j<length (poss ?g). nid (poss ?g ! j) = pos_id \<longrightarrow> \<not> compromised (poss ?g ! j)"
    using nid pos by (auto simp: resolved_edges)
  have b: "\<forall>k<length (txs ?g).
          at_pos (txs ?g ! k) < length (poss ?g) \<and>
          nid (poss ?g ! at_pos (txs ?g ! k)) = pos_id \<longrightarrow>
            \<not> fraudReported (txs ?g ! k) \<and>
            (using_card (txs ?g ! k) < length (cards ?g) \<longrightarrow>
               \<not> compromised (cards ?g ! using_card (txs ?g ! k)))"
    using nid tx card by (auto simp: resolved_edges)
  have c: "\<forall>k<length (txs g).
          \<not> (at_pos (txs g ! k) < length (poss g) \<and> nid (poss g ! at_pos (txs g ! k)) = pos_id) \<longrightarrow>
            txs ?g ! k = txs g ! k"
    using keep by blast
  show ?thesis
    unfolding Let_def resolve_pos_resolved
    using a b c m1 m2 m3 by (intro conjI)
qed

theorem resolve_pos_clears_witness:
  "0 < length (txs (resolve_pos ring_graph 0)) \<and>
   at_pos (txs (resolve_pos ring_graph 0) ! 0) < length (poss (resolve_pos ring_graph 0)) \<and>
   nid (poss (resolve_pos ring_graph 0) ! at_pos (txs (resolve_pos ring_graph 0) ! 0)) = 0 \<and>
   using_card (txs (resolve_pos ring_graph 0) ! 0) < length (cards (resolve_pos ring_graph 0)) \<and>
   fraudReported (txs ring_graph ! 0) \<and> compromised (cards ring_graph ! 0) \<and>
   \<not> fraudReported (txs (resolve_pos ring_graph 0) ! 0) \<and>
   \<not> compromised (cards (resolve_pos ring_graph 0) ! using_card (txs (resolve_pos ring_graph 0) ! 0)) \<and>
   4 < length (txs ring_graph) \<and> nid (poss ring_graph ! at_pos (txs ring_graph ! 4)) \<noteq> 0 \<and>
   txs (resolve_pos ring_graph 0) ! 4 = txs ring_graph ! 4 \<and> fraudReported (txs ring_graph ! 4)"
proof -
  let ?g = "resolve_pos ring_graph 0"
  have h: "0 < length (txs ?g)" "at_pos (txs ?g ! 0) < length (poss ?g)"
    "nid (poss ?g ! at_pos (txs ?g ! 0)) = 0" "using_card (txs ?g ! 0) < length (cards ?g)"
    "fraudReported (txs ring_graph ! 0)" "compromised (cards ring_graph ! 0)"
    by code_simp+
  have k: "4 < length (txs ring_graph)" "nid (poss ring_graph ! at_pos (txs ring_graph ! 4)) \<noteq> 0"
    "fraudReported (txs ring_graph ! 4)"
    by code_simp+
  from resolve_pos_clears [of ring_graph 0] h(1-4)
  have 1: "\<not> fraudReported (txs ?g ! 0) \<and> \<not> compromised (cards ?g ! using_card (txs ?g ! 0))"
    unfolding Let_def by blast
  from resolve_pos_clears [of ring_graph 0] k(1,2)
  have 2: "txs ?g ! 4 = txs ring_graph ! 4"
    unfolding Let_def by blast
  from 1 2 h k show ?thesis by blast
qed

text \<open>
  In the store after the second transaction of the example run, card 0 is reachable from
  device 0 through transaction 0, and transaction 1 uses card 0 at device 1 with a fraud
  report; resolving device 0 leaves that report in place.
\<close>

theorem resolve_pos_keeps_other_reports:
  "generate_data empty_graph (ex_request 2) ex_rng = (Response 201, after_second) \<and>
   nid (poss after_second ! at_pos (txs after_second ! 0)) = 0 \<and>
   using_card (txs after_second ! 0) = 0 \<and> using_card (txs after_second ! 1) = 0 \<and>
   fraudReported (txs (resolve_pos after_second 0) ! 1)"
  by code_simp

end
